theory Spec2Isabelle
  imports Complex_Main "HOL-Library.Word" "HOL-Library.Multiset"
begin

section \<open>The hash table of HashADT.c\<close>

text \<open>
  A shallow embedding of \<^verbatim>\<open>src/HashADT/HashADT.c\<close>: an open-addressing hash table
  with linear probing that doubles its slot array when the load reaches 0.75.

  Conventions of the model:
  \<^item> a \<^verbatim>\<open>void*\<close> is a natural number, the address; \<^verbatim>\<open>NULL\<close> is 0;
  \<^item> \<^verbatim>\<open>size_t\<close> hash values are 64-bit words, so \<^verbatim>\<open>hash++\<close> wraps at \<open>2 ^ 64\<close>;
    \<^verbatim>\<open>capacity\<close> and \<^verbatim>\<open>occupancy\<close> are natural numbers (an array of \<open>2 ^ 63\<close> slots
    cannot be allocated, so they never wrap);
  \<^item> the \<^verbatim>\<open>int\<close> counter \<^verbatim>\<open>collisions\<close> is a 32-bit word, read as a signed number
    by \<open>sint\<close>: \<^verbatim>\<open>collisions++\<close> wraps from \<open>2 ^ 31 - 1\<close> to \<open>- 2 ^ 31\<close>, as the
    compiled code does (the C standard leaves the overflow undefined). The
    counter \<^verbatim>\<open>rehashes\<close> is an integer: it counts the doublings of a capacity
    that is a \<^verbatim>\<open>size_t\<close>, so it stays far below \<open>2 ^ 31\<close>;
  \<^item> the slot array is a list; a read or write outside it is the error
    \<open>OutOfBounds\<close>, a remainder by a zero capacity is \<open>DivByZero\<close>, a failed
    \<^verbatim>\<open>assert\<close> is \<open>AssertFailed\<close> (assertions are compiled in);
  \<^item> a loop with no bound of its own is a \<^theory_text>\<open>partial_function\<close> in the option
    monad: \<open>None\<close> means that the call never returns;
  \<^item> \<^verbatim>\<open>malloc\<close> and \<^verbatim>\<open>calloc\<close> succeed; a cell of a \<^verbatim>\<open>malloc\<close>ed buffer that was
    never written is \<open>None\<close>.
\<close>

subsection \<open>Data\<close>

type_synonym ptr = nat

abbreviation NULL :: ptr where
  "NULL \<equiv> 0"

datatype error = DivByZero | AssertFailed | OutOfBounds

text \<open>\<^verbatim>\<open>struct KeyValuePair\<close> (lines 33-39); the field \<^verbatim>\<open>value\<close> is \<open>val\<close> here.\<close>

record KeyValuePair =
  key :: ptr
  val :: ptr

text \<open>
  \<^verbatim>\<open>struct hashtab_s\<close> (lines 47-75). The print callback only writes to the
  terminal and is left out; of the delete callback the table records whether
  it was given, and \<open>ht_destroy\<close> returns the calls made to it.
\<close>

record hashtab_s =
  capacity :: nat
  occupancy :: nat
  collisions :: "32 word"
  rehashes :: int
  hash_fcn :: "ptr \<Rightarrow> 64 word"
  equals_fcn :: "ptr \<Rightarrow> ptr \<Rightarrow> bool"
  delete_fcn :: bool
  table :: "KeyValuePair list"

text \<open>
  Modelled from the spec: the macros \<^verbatim>\<open>LOAD_THRESHOLD\<close> and \<^verbatim>\<open>RESIZE_FACTOR\<close> of
  the header \<^verbatim>\<open>HashADT.h\<close>, which is not among the sources; the spec gives 0.75
  and 2. The third macro, \<^verbatim>\<open>INITIAL_CAPACITY\<close>, is a parameter of \<open>ht_create\<close>.
\<close>

definition LOAD_THRESHOLD :: real where
  "LOAD_THRESHOLD = 0.75"

definition RESIZE_FACTOR :: nat where
  "RESIZE_FACTOR = 2"

text \<open>What \<^verbatim>\<open>calloc\<close> returns: \<open>n\<close> slots of zero bytes.\<close>

definition calloc :: "nat \<Rightarrow> KeyValuePair list" where
  "calloc n = replicate n \<lparr>key = NULL, val = NULL\<rparr>"

subsection \<open>Construction and destruction\<close>

text \<open>\<^verbatim>\<open>ht_create\<close> (lines 81-135).\<close>

definition ht_create ::
  "nat \<Rightarrow> (ptr \<Rightarrow> 64 word) \<Rightarrow> (ptr \<Rightarrow> ptr \<Rightarrow> bool) \<Rightarrow> bool \<Rightarrow> hashtab_s" where
  "ht_create INITIAL_CAPACITY hash equals delete =
     \<lparr>capacity = INITIAL_CAPACITY, occupancy = 0, collisions = 0, rehashes = 0,
      hash_fcn = hash, equals_fcn = equals, delete_fcn = delete,
      table = calloc INITIAL_CAPACITY\<rparr>"


subsection \<open>Lookup\<close>

text \<open>
  The \<^verbatim>\<open>do ... while (index != orig_index)\<close> loop of \<^verbatim>\<open>ht_has\<close> (lines 235-261),
  entered with the current \<open>hash_value\<close> and \<open>index\<close>. It writes the collision
  counter of the table, so the table is returned with the answer.
\<close>

partial_function (option) ht_has_loop ::
  "hashtab_s \<Rightarrow> ptr \<Rightarrow> nat \<Rightarrow> 64 word \<Rightarrow> nat \<Rightarrow> (error + bool \<times> hashtab_s) option" where
  "ht_has_loop t k orig_index hash_value index =
     (if length (table t) \<le> index then Some (Inl OutOfBounds)
      else let pair = table t ! index in
        if key pair = NULL then Some (Inr (False, t))
        else if equals_fcn t k (key pair) then Some (Inr (True, t))
        else let hash_value' = hash_value + 1;
                 index' = unat hash_value' mod capacity t;
                 t' = t\<lparr>collisions := collisions t + 1\<rparr>
             in if index' \<noteq> orig_index
                then ht_has_loop t' k orig_index hash_value' index'
                else Some (Inr (False, t')))"

text \<open>\<^verbatim>\<open>ht_has\<close> (lines 220-265).\<close>

definition ht_has :: "hashtab_s \<Rightarrow> ptr \<Rightarrow> (error + bool \<times> hashtab_s) option" where
  "ht_has t k =
     (if capacity t = 0 then Some (Inl DivByZero)
      else let hash_value = hash_fcn t k;
               orig_index = unat hash_value mod capacity t
           in ht_has_loop t k orig_index hash_value orig_index)"

text \<open>
  The \<^verbatim>\<open>while\<close> loop of \<^verbatim>\<open>ht_get\<close> (lines 292-302), entered with the current
  \<open>hashcode\<close> and the \<open>pair\<close> read last. It has no bound and tests no slot for
  emptiness.
\<close>

partial_function (option) ht_get_loop ::
  "hashtab_s \<Rightarrow> ptr \<Rightarrow> 64 word \<Rightarrow> KeyValuePair \<Rightarrow> (error + ptr) option" where
  "ht_get_loop t k hashcode pair =
     (if equals_fcn t k (key pair) then Some (Inr (val pair))
      else let hashcode' = hashcode + 1;
               index = unat hashcode' mod capacity t
           in if length (table t) \<le> index then Some (Inl OutOfBounds)
              else ht_get_loop t k hashcode' (table t ! index))"

text \<open>
  \<^verbatim>\<open>ht_get\<close> (lines 271-306). The assertion calls \<^verbatim>\<open>ht_has\<close>, which counts
  collisions, so the table is returned with the value.
\<close>

definition ht_get :: "hashtab_s \<Rightarrow> ptr \<Rightarrow> (error + ptr \<times> hashtab_s) option" where
  "ht_get t k =
     (case ht_has t k of
        None \<Rightarrow> None
      | Some (Inl e) \<Rightarrow> Some (Inl e)
      | Some (Inr (found, t')) \<Rightarrow>
          if \<not> found then Some (Inl AssertFailed)
          else let hashcode = hash_fcn t' k;
                   index = unat hashcode mod capacity t'
               in if length (table t') \<le> index then Some (Inl OutOfBounds)
                  else (case ht_get_loop t' k hashcode (table t' ! index) of
                          None \<Rightarrow> None
                        | Some (Inl e) \<Rightarrow> Some (Inl e)
                        | Some (Inr v) \<Rightarrow> Some (Inr (v, t'))))"

subsection \<open>Insertion\<close>

text \<open>
  The inner \<^verbatim>\<open>do ... while (new_table[index].key != NULL)\<close> loop of the rehash
  (lines 356-366): it returns the index of the free slot and the table with its
  collision counter.
\<close>

partial_function (option) rehash_probe ::
  "hashtab_s \<Rightarrow> KeyValuePair list \<Rightarrow> 64 word \<Rightarrow> (error + nat \<times> hashtab_s) option" where
  "rehash_probe t new_table hash =
     (let hash' = hash + 1;
          index = unat hash' mod capacity t;
          t' = t\<lparr>collisions := collisions t + 1\<rparr>
      in if length new_table \<le> index then Some (Inl OutOfBounds)
         else if key (new_table ! index) \<noteq> NULL then rehash_probe t' new_table hash'
         else Some (Inr (index, t')))"

text \<open>
  The \<^verbatim>\<open>for\<close> loop over the old array (lines 336-377), on the slots of the old
  array not yet visited; \<open>t\<close> already has the new capacity.
\<close>

fun rehash_loop ::
  "hashtab_s \<Rightarrow> KeyValuePair list \<Rightarrow> KeyValuePair list
     \<Rightarrow> (error + hashtab_s \<times> KeyValuePair list) option" where
  "rehash_loop t [] new_table = Some (Inr (t, new_table))"
| "rehash_loop t (pair # old_table) new_table =
     (if key pair = NULL then rehash_loop t old_table new_table
      else let hash = hash_fcn t (key pair);
               index = unat hash mod capacity t
           in if length new_table \<le> index then Some (Inl OutOfBounds)
              else if key (new_table ! index) \<noteq> NULL then
                (case rehash_probe t new_table hash of
                   None \<Rightarrow> None
                 | Some (Inl e) \<Rightarrow> Some (Inl e)
                 | Some (Inr (index', t')) \<Rightarrow>
                     rehash_loop t' old_table (new_table[index' := pair]))
              else rehash_loop t old_table (new_table[index := pair]))"

text \<open>The rehash of \<^verbatim>\<open>ht_put\<close>, the body of its first \<^verbatim>\<open>if\<close> (lines 320-388).\<close>

definition ht_put_rehash :: "hashtab_s \<Rightarrow> (error + hashtab_s) option" where
  "ht_put_rehash t =
     (let new_table = calloc (capacity t * RESIZE_FACTOR);
          old_table = table t;
          old_capacity = capacity t;
          t1 = t\<lparr>capacity := old_capacity * RESIZE_FACTOR\<rparr>
      in if length old_table < old_capacity then Some (Inl OutOfBounds)
         else (case rehash_loop t1 (take old_capacity old_table) new_table of
                 None \<Rightarrow> None
               | Some (Inl e) \<Rightarrow> Some (Inl e)
               | Some (Inr (t2, new_table')) \<Rightarrow>
                   Some (Inr (t2\<lparr>table := new_table', rehashes := rehashes t2 + 1\<rparr>))))"

text \<open>
  The \<^verbatim>\<open>do ... while (t->table[new_index].key != NULL)\<close> loop of the placement
  (lines 419-448), with the two statements after it; it is entered on an
  occupied slot.
\<close>

partial_function (option) put_probe ::
  "hashtab_s \<Rightarrow> ptr \<Rightarrow> ptr \<Rightarrow> 64 word \<Rightarrow> nat \<Rightarrow> (error + ptr \<times> hashtab_s) option" where
  "put_probe t k v new_hash new_index =
     (if length (table t) \<le> new_index then Some (Inl OutOfBounds)
      else let collision_pair = table t ! new_index in
        if equals_fcn t k (key collision_pair) then
          Some (Inr (val collision_pair,
                     t\<lparr>table := (table t)[new_index := collision_pair\<lparr>val := v\<rparr>]\<rparr>))
        else let t' = t\<lparr>collisions := collisions t + 1\<rparr>;
                 new_hash' = new_hash + 1;
                 new_index' = unat new_hash' mod capacity t
             in if length (table t) \<le> new_index' then Some (Inl OutOfBounds)
                else if key (table t ! new_index') \<noteq> NULL
                then put_probe t' k v new_hash' new_index'
                else Some (Inr (NULL,
                       t'\<lparr>table := (table t)[new_index' := \<lparr>key = k, val = v\<rparr>],
                          occupancy := occupancy t + 1\<rparr>)))"

text \<open>The placement of \<^verbatim>\<open>ht_put\<close> (lines 391-448).\<close>

definition ht_put_place ::
  "hashtab_s \<Rightarrow> ptr \<Rightarrow> ptr \<Rightarrow> (error + ptr \<times> hashtab_s) option" where
  "ht_put_place t k v =
     (let new_pair = \<lparr>key = k, val = v\<rparr>;
          new_hash = hash_fcn t k;
          new_index = unat new_hash mod capacity t
      in if length (table t) \<le> new_index then Some (Inl OutOfBounds)
         else if key (table t ! new_index) = NULL then
           Some (Inr (NULL, t\<lparr>table := (table t)[new_index := new_pair],
                              occupancy := occupancy t + 1\<rparr>))
         else put_probe t k v new_hash new_index)"

text \<open>
  \<^verbatim>\<open>ht_put\<close> (lines 312-449). The quotient of the load test is taken in the
  reals: the \<^verbatim>\<open>double\<close> quotient compares with 0.75 as the exact one does for
  every capacity below \<open>2 ^ 52\<close>. With a zero capacity the call stops at the
  remainder of line 401, whatever the test gives.
\<close>

definition ht_put :: "hashtab_s \<Rightarrow> ptr \<Rightarrow> ptr \<Rightarrow> (error + ptr \<times> hashtab_s) option" where
  "ht_put t k v =
     (if capacity t = 0 then Some (Inl DivByZero)
      else let current_threshold = real (occupancy t) / real (capacity t) in
        if current_threshold \<ge> LOAD_THRESHOLD then
          (case ht_put_rehash t of
             None \<Rightarrow> None
           | Some (Inl e) \<Rightarrow> Some (Inl e)
           | Some (Inr t1) \<Rightarrow> ht_put_place t1 k v)
        else ht_put_place t k v)"

subsection \<open>Enumeration\<close>

text \<open>
  The scan of \<^verbatim>\<open>ht_keys\<close> (lines 466-475) over the slots not yet visited, with
  the buffer and \<open>key_index\<close>.
\<close>

fun ht_keys_loop ::
  "KeyValuePair list \<Rightarrow> ptr option list \<Rightarrow> nat \<Rightarrow> error + ptr option list" where
  "ht_keys_loop [] keys key_index = Inr keys"
| "ht_keys_loop (pair # rest) keys key_index =
     (if key pair \<noteq> NULL then
        (if length keys \<le> key_index then Inl OutOfBounds
         else ht_keys_loop rest (keys[key_index := Some (key pair)]) (key_index + 1))
      else ht_keys_loop rest keys key_index)"

text \<open>\<^verbatim>\<open>ht_keys\<close> (lines 455-478): a buffer of \<open>occupancy\<close> cells.\<close>

definition ht_keys :: "hashtab_s \<Rightarrow> error + ptr option list" where
  "ht_keys t =
     (if length (table t) < capacity t then Inl OutOfBounds
      else ht_keys_loop (take (capacity t) (table t)) (replicate (occupancy t) None) 0)"

text \<open>
  The scan of \<^verbatim>\<open>ht_values\<close> (lines 495-504): the test of line 499 reads the
  value field.
\<close>

fun ht_values_loop ::
  "KeyValuePair list \<Rightarrow> ptr option list \<Rightarrow> nat \<Rightarrow> error + ptr option list" where
  "ht_values_loop [] values value_index = Inr values"
| "ht_values_loop (pair # rest) values value_index =
     (if val pair \<noteq> NULL then
        (if length values \<le> value_index then Inl OutOfBounds
         else ht_values_loop rest (values[value_index := Some (val pair)]) (value_index + 1))
      else ht_values_loop rest values value_index)"

text \<open>\<^verbatim>\<open>ht_values\<close> (lines 484-507): a buffer of \<open>occupancy\<close> cells.\<close>

definition ht_values :: "hashtab_s \<Rightarrow> error + ptr option list" where
  "ht_values t =
     (if length (table t) < capacity t then Inl OutOfBounds
      else ht_values_loop (take (capacity t) (table t)) (replicate (occupancy t) None) 0)"

subsection \<open>Well-formed tables\<close>

text \<open>
  The index probed \<open>j\<close> steps after a key of hash \<open>h\<close>: the hash is
  incremented as a \<^verbatim>\<open>size_t\<close> and reduced modulo the capacity at each step.
\<close>

definition probe_index :: "nat \<Rightarrow> 64 word \<Rightarrow> nat \<Rightarrow> nat" where
  "probe_index cap h j = unat (h + of_nat j) mod cap"

text \<open>The occupied slots of an array, in index order.\<close>

definition occupied_slots :: "KeyValuePair list \<Rightarrow> KeyValuePair list" where
  "occupied_slots tab = filter (\<lambda>p. key p \<noteq> NULL) tab"

text \<open>
  The probe-sequence invariant: every occupied slot is reached from the home
  slot of its key by a run of occupied slots.
\<close>

definition probe_inv :: "(ptr \<Rightarrow> 64 word) \<Rightarrow> nat \<Rightarrow> KeyValuePair list \<Rightarrow> bool" where
  "probe_inv hf cap tab \<longleftrightarrow>
     (\<forall>i<cap. key (tab ! i) \<noteq> NULL \<longrightarrow>
        (\<exists>d<cap. probe_index cap (hf (key (tab ! i))) d = i \<and>
           (\<forall>j<d. key (tab ! probe_index cap (hf (key (tab ! i))) j) \<noteq> NULL)))"

text \<open>No two occupied slots hold keys that the client's predicate equates.\<close>

definition uniq_keys :: "(ptr \<Rightarrow> ptr \<Rightarrow> bool) \<Rightarrow> KeyValuePair list \<Rightarrow> bool" where
  "uniq_keys eq tab \<longleftrightarrow>
     (\<forall>i<length tab. \<forall>j<length tab.
        key (tab ! i) \<noteq> NULL \<and> key (tab ! j) \<noteq> NULL \<and> eq (key (tab ! i)) (key (tab ! j))
        \<longrightarrow> i = j)"

text \<open>
  The contract of the callbacks: \<open>equals\<close> is an equivalence relation and
  \<open>hash\<close> gives keys it equates the same value.
\<close>

definition callbacks_ok :: "(ptr \<Rightarrow> 64 word) \<Rightarrow> (ptr \<Rightarrow> ptr \<Rightarrow> bool) \<Rightarrow> bool" where
  "callbacks_ok hf eq \<longleftrightarrow>
     (\<forall>a. eq a a) \<and> (\<forall>a b. eq a b \<longrightarrow> eq b a) \<and>
     (\<forall>a b c. eq a b \<and> eq b c \<longrightarrow> eq a c) \<and> (\<forall>a b. eq a b \<longrightarrow> hf a = hf b)"

text \<open>
  A well-formed table: the array has \<open>capacity\<close> slots, the capacity is at
  least 4 and divides \<open>2 ^ 64\<close> (a power of two, as an initial capacity that is
  one stays under doubling), \<open>occupancy\<close> is below the capacity and not below
  the number of occupied slots (it is that number as long as no \<open>NULL\<close> key is
  put: such a call counts a slot that stays empty), and the two invariants
  above hold.
\<close>

definition ht_wf :: "hashtab_s \<Rightarrow> bool" where
  "ht_wf t \<longleftrightarrow>
     4 \<le> capacity t \<and> length (table t) = capacity t \<and> capacity t dvd 2 ^ 64 \<and>
     length (occupied_slots (table t)) \<le> occupancy t \<and> occupancy t < capacity t \<and>
     probe_inv (hash_fcn t) (capacity t) (table t) \<and>
     uniq_keys (equals_fcn t) (table t) \<and>
     callbacks_ok (hash_fcn t) (equals_fcn t)"

text \<open>A key is present when an occupied slot holds a key that \<open>equals\<close> matches.\<close>

definition present :: "hashtab_s \<Rightarrow> ptr \<Rightarrow> bool" where
  "present t k \<longleftrightarrow> (\<exists>p \<in> set (table t). key p \<noteq> NULL \<and> equals_fcn t k (key p))"

text \<open>
  The probe-sequence invariant in the words of the specification, with the
  probe sequence \<open>h mod capacity\<close>, \<open>(h + 1) mod capacity\<close>, ... in the natural
  numbers: an occupied slot \<open>i\<close> lies \<open>d\<close> steps after the home slot of its key,
  and the slots of the steps before are occupied.
\<close>

definition hole_free :: "hashtab_s \<Rightarrow> bool" where
  "hole_free t \<longleftrightarrow>
     (\<forall>i<capacity t. key (table t ! i) \<noteq> NULL \<longrightarrow>
        (\<exists>d<capacity t.
           (unat (hash_fcn t (key (table t ! i))) + d) mod capacity t = i \<and>
           (\<forall>j<d. key (table t ! ((unat (hash_fcn t (key (table t ! i))) + j) mod capacity t))
                  \<noteq> NULL)))"

subsection \<open>The lookup as the specification words it\<close>

text \<open>
  The scan of section 4.2 over the slots in probe order: stop with \<open>False\<close> on
  the first empty slot, stop with \<open>True\<close> on a slot whose key \<open>equals\<close> matches,
  otherwise count one collision and continue. The result is the answer and the
  number of collisions counted, a natural number.
\<close>

fun has_scan :: "(ptr \<Rightarrow> ptr \<Rightarrow> bool) \<Rightarrow> ptr \<Rightarrow> KeyValuePair list \<Rightarrow> bool \<times> nat" where
  "has_scan eq k [] = (False, 0)"
| "has_scan eq k (slot # slots) =
     (if key slot = NULL then (False, 0)
      else if eq k (key slot) then (True, 0)
      else (case has_scan eq k slots of (found, n) \<Rightarrow> (found, n + 1)))"

text \<open>
  The slots \<open>h mod capacity\<close>, \<open>(h + 1) mod capacity\<close>, ... of one full cycle:
  \<open>capacity\<close> probe steps at most.
\<close>

definition probe_slots :: "hashtab_s \<Rightarrow> ptr \<Rightarrow> KeyValuePair list" where
  "probe_slots t k =
     map (\<lambda>j. table t ! ((unat (hash_fcn t k) + j) mod capacity t)) [0..<capacity t]"

text \<open>
  The lookup of section 4.2: these slots scanned so, and the collisions
  counted added to the counter of the table, which is the 32-bit \<^verbatim>\<open>int\<close> of
  the code.
\<close>

definition has_spec :: "hashtab_s \<Rightarrow> ptr \<Rightarrow> bool \<times> hashtab_s" where
  "has_spec t k =
     (case has_scan (equals_fcn t) k (probe_slots t k) of
        (found, n) \<Rightarrow> (found, t\<lparr>collisions := collisions t + of_nat n\<rparr>))"

subsection \<open>Example tables\<close>

text \<open>A hash callback that returns the address, with pointer equality as \<open>equals\<close>.\<close>

definition ex_hash :: "ptr \<Rightarrow> 64 word" where
  "ex_hash k = of_nat k"

definition ex_empty :: hashtab_s where
  "ex_empty = ht_create 4 ex_hash (=) True"

text \<open>The table after \<^verbatim>\<open>ht_put(t, 1, NULL)\<close> on the empty one.\<close>

definition ex_null :: hashtab_s where
  "ex_null =
     \<lparr>capacity = 4, occupancy = 1, collisions = 0, rehashes = 0,
      hash_fcn = ex_hash, equals_fcn = (=), delete_fcn = True,
      table = [\<lparr>key = NULL, val = NULL\<rparr>, \<lparr>key = 1, val = NULL\<rparr>,
               \<lparr>key = NULL, val = NULL\<rparr>, \<lparr>key = NULL, val = NULL\<rparr>]\<rparr>"

text \<open>
  The table after \<^verbatim>\<open>ht_put(t, 1, 10)\<close> and \<^verbatim>\<open>ht_put(t, 5, 50)\<close> on the empty one:
  the keys 1 and 5 share the home slot 1.
\<close>

definition ex_two :: hashtab_s where
  "ex_two =
     \<lparr>capacity = 4, occupancy = 2, collisions = 1, rehashes = 0,
      hash_fcn = ex_hash, equals_fcn = (=), delete_fcn = True,
      table = [\<lparr>key = NULL, val = NULL\<rparr>, \<lparr>key = 1, val = 10\<rparr>,
               \<lparr>key = 5, val = 50\<rparr>, \<lparr>key = NULL, val = NULL\<rparr>]\<rparr>"

text \<open>
  The table after the keys 1, 2 and 3 were put into the empty one: its load is
  0.75.
\<close>

definition ex_three :: hashtab_s where
  "ex_three =
     \<lparr>capacity = 4, occupancy = 3, collisions = 0, rehashes = 0,
      hash_fcn = ex_hash, equals_fcn = (=), delete_fcn = True,
      table = [\<lparr>key = NULL, val = NULL\<rparr>, \<lparr>key = 1, val = 10\<rparr>,
               \<lparr>key = 2, val = 20\<rparr>, \<lparr>key = 3, val = 30\<rparr>]\<rparr>"




text \<open>
  The tables after \<^verbatim>\<open>ht_put(t, NULL, 7)\<close> on the empty one, and after
  \<^verbatim>\<open>ht_put(t, NULL, 8)\<close> on that: the slot 0 is written and stays empty.
\<close>

definition ex_nullkey1 :: hashtab_s where
  "ex_nullkey1 =
     \<lparr>capacity = 4, occupancy = 1, collisions = 0, rehashes = 0,
      hash_fcn = ex_hash, equals_fcn = (=), delete_fcn = True,
      table = [\<lparr>key = NULL, val = 7\<rparr>, \<lparr>key = NULL, val = NULL\<rparr>,
               \<lparr>key = NULL, val = NULL\<rparr>, \<lparr>key = NULL, val = NULL\<rparr>]\<rparr>"

definition ex_nullkey2 :: hashtab_s where
  "ex_nullkey2 =
     \<lparr>capacity = 4, occupancy = 2, collisions = 0, rehashes = 0,
      hash_fcn = ex_hash, equals_fcn = (=), delete_fcn = True,
      table = [\<lparr>key = NULL, val = 8\<rparr>, \<lparr>key = NULL, val = NULL\<rparr>,
               \<lparr>key = NULL, val = NULL\<rparr>, \<lparr>key = NULL, val = NULL\<rparr>]\<rparr>"

subsection \<open>A client of the table\<close>

text \<open>
  The calls a client makes on a table between \<^verbatim>\<open>ht_create\<close> and \<^verbatim>\<open>ht_destroy\<close>
  that write to it, and a sequence of such calls run one after the other on
  the table the call before has left. A call that fails or does not return
  ends the run.
\<close>

datatype call = Put ptr ptr | Has ptr | Get ptr

fun step :: "hashtab_s \<Rightarrow> call \<Rightarrow> (error + hashtab_s) option" where
  "step t (Put k v) =
     (case ht_put t k v of
        None \<Rightarrow> None | Some (Inl e) \<Rightarrow> Some (Inl e) | Some (Inr (r, t')) \<Rightarrow> Some (Inr t'))"
| "step t (Has k) =
     (case ht_has t k of
        None \<Rightarrow> None | Some (Inl e) \<Rightarrow> Some (Inl e) | Some (Inr (r, t')) \<Rightarrow> Some (Inr t'))"
| "step t (Get k) =
     (case ht_get t k of
        None \<Rightarrow> None | Some (Inl e) \<Rightarrow> Some (Inl e) | Some (Inr (r, t')) \<Rightarrow> Some (Inr t'))"

fun run :: "hashtab_s \<Rightarrow> call list \<Rightarrow> (error + hashtab_s) option" where
  "run t [] = Some (Inr t)"
| "run t (c # cs) =
     (case step t c of
        None \<Rightarrow> None | Some (Inl e) \<Rightarrow> Some (Inl e) | Some (Inr t') \<Rightarrow> run t' cs)"

text \<open>The key of a \<open>Put\<close> is a key: not the empty-sentinel.\<close>

fun key_given :: "call \<Rightarrow> bool" where
  "key_given (Put k v) = (k \<noteq> NULL)"
| "key_given (Has k) = True"
| "key_given (Get k) = True"

text \<open>
  The counters agree with the array: it has \<open>capacity\<close> slots, at least 4, and
  \<open>occupancy\<close> of them are occupied, fewer than \<open>capacity\<close>.
\<close>

definition counts_ok :: "hashtab_s \<Rightarrow> bool" where
  "counts_ok t \<longleftrightarrow>
     4 \<le> capacity t \<and> length (table t) = capacity t \<and>
     occupancy t = length (occupied_slots (table t)) \<and> occupancy t < capacity t"

section \<open>Properties\<close>


subsection \<open>Probe indices\<close>

lemma probe_index_0: "probe_index cap h 0 = unat h mod cap"
  by (simp add: probe_index_def)

lemma probe_index_Suc: "probe_index cap (h + 1) j = probe_index cap h (Suc j)"
  by (simp add: probe_index_def ac_simps)

lemma probe_index_less: "0 < cap \<Longrightarrow> probe_index cap h j < cap"
  by (simp add: probe_index_def)

lemma probe_index_dvd:
  assumes "cap dvd 2 ^ 64"
  shows "probe_index cap h j = (unat h + j) mod cap"
proof -
  have "unat (h + of_nat j) = (unat h + j) mod 2 ^ 64"
    by (simp add: unat_word_ariths unat_of_nat mod_add_right_eq)
  then show ?thesis
    using assms by (simp add: probe_index_def mod_mod_cancel)
qed

lemma ht_get_loop_run:
  assumes "length (table t) = capacity t" "0 < capacity t"
    and "\<forall>j<d. \<not> equals_fcn t k (key (table t ! probe_index (capacity t) h j))"
    and "equals_fcn t k (key (table t ! probe_index (capacity t) h d))"
  shows "ht_get_loop t k h (table t ! probe_index (capacity t) h 0)
         = Some (Inr (val (table t ! probe_index (capacity t) h d)))"
  using assms
proof (induction d arbitrary: h)
  case 0
  then show ?case by (subst ht_get_loop.simps) simp
next
  case (Suc d)
  have nm: "\<not> equals_fcn t k (key (table t ! probe_index (capacity t) h 0))"
    using Suc.prems(3) by blast
  have step: "ht_get_loop t k (h + 1) (table t ! probe_index (capacity t) (h + 1) 0)
      = Some (Inr (val (table t ! probe_index (capacity t) (h + 1) d)))"
    using Suc.prems by (intro Suc.IH) (auto simp: probe_index_Suc)
  show ?case
    using nm step Suc.prems(1,2)
    by (subst ht_get_loop.simps) (simp add: probe_index_Suc probe_index_0 Let_def not_le)
qed

lemma put_probe_update:
  assumes "length (table t) = capacity t" "0 < capacity t"
    and "\<forall>j<d. \<not> equals_fcn t k (key (table t ! probe_index (capacity t) h j))"
    and "\<forall>j\<le>d. key (table t ! probe_index (capacity t) h j) \<noteq> NULL"
    and "equals_fcn t k (key (table t ! probe_index (capacity t) h d))"
  shows "put_probe t k v h (probe_index (capacity t) h 0) =
    Some (Inr (val (table t ! probe_index (capacity t) h d),
      t\<lparr>collisions := collisions t + of_nat d,
        table := (table t)[probe_index (capacity t) h d :=
                   (table t ! probe_index (capacity t) h d)\<lparr>val := v\<rparr>]\<rparr>))"
  using assms
proof (induction d arbitrary: t h)
  case 0
  then show ?case
    by (subst put_probe.simps) (simp add: probe_index_less not_le Let_def)
next
  case (Suc d)
  let ?t' = "t\<lparr>collisions := collisions t + 1\<rparr>"
  have nm: "\<not> equals_fcn t k (key (table t ! probe_index (capacity t) h 0))"
    using Suc.prems(3) by blast
  have occ1: "key (table t ! probe_index (capacity t) h (Suc 0)) \<noteq> NULL"
    using Suc.prems(4) by (metis Suc_le_mono zero_le)
  have step: "put_probe ?t' k v (h + 1) (probe_index (capacity ?t') (h + 1) 0) =
    Some (Inr (val (table ?t' ! probe_index (capacity ?t') (h + 1) d),
      ?t'\<lparr>collisions := collisions ?t' + of_nat d,
        table := (table ?t')[probe_index (capacity ?t') (h + 1) d :=
                   (table ?t' ! probe_index (capacity ?t') (h + 1) d)\<lparr>val := v\<rparr>]\<rparr>))"
    using Suc.prems by (intro Suc.IH) (auto simp: probe_index_Suc)
  show ?case
    using nm occ1 step Suc.prems(1,2)
    by (subst put_probe.simps)
       (simp add: probe_index_Suc probe_index_less not_le Let_def
          probe_index_0 [symmetric] add.assoc)
qed

lemma put_probe_insert:
  assumes "length (table t) = capacity t" "0 < capacity t"
    and "\<forall>j\<le>d. \<not> equals_fcn t k (key (table t ! probe_index (capacity t) h j))"
    and "\<forall>j\<le>d. key (table t ! probe_index (capacity t) h j) \<noteq> NULL"
    and "key (table t ! probe_index (capacity t) h (Suc d)) = NULL"
  shows "put_probe t k v h (probe_index (capacity t) h 0) =
    Some (Inr (NULL,
      t\<lparr>collisions := collisions t + of_nat (Suc d),
        table := (table t)[probe_index (capacity t) h (Suc d) := \<lparr>key = k, val = v\<rparr>],
        occupancy := occupancy t + 1\<rparr>))"
  using assms
proof (induction d arbitrary: t h)
  case 0
  then show ?case
    by (subst put_probe.simps)
       (simp add: probe_index_less not_le Let_def probe_index_Suc
          probe_index_0 [symmetric])
next
  case (Suc d)
  let ?t' = "t\<lparr>collisions := collisions t + 1\<rparr>"
  have nm: "\<not> equals_fcn t k (key (table t ! probe_index (capacity t) h 0))"
    using Suc.prems(3) by blast
  have occ1: "key (table t ! probe_index (capacity t) h (Suc 0)) \<noteq> NULL"
    using Suc.prems(4) by (metis Suc_le_mono zero_le)
  have step: "put_probe ?t' k v (h + 1) (probe_index (capacity ?t') (h + 1) 0) =
    Some (Inr (NULL,
      ?t'\<lparr>collisions := collisions ?t' + of_nat (Suc d),
        table := (table ?t')[probe_index (capacity ?t') (h + 1) (Suc d) := \<lparr>key = k, val = v\<rparr>],
        occupancy := occupancy ?t' + 1\<rparr>))"
    using Suc.prems by (intro Suc.IH) (auto simp: probe_index_Suc)
  show ?case
    using nm occ1 step Suc.prems(1,2)
    by (subst put_probe.simps)
       (simp add: probe_index_Suc probe_index_less not_le Let_def
          probe_index_0 [symmetric] add.assoc)
qed

lemma rehash_probe_run:
  assumes "length nt = capacity t" "0 < capacity t"
    and "\<forall>j<d. key (nt ! probe_index (capacity t) h (Suc j)) \<noteq> NULL"
    and "key (nt ! probe_index (capacity t) h (Suc d)) = NULL"
  shows "rehash_probe t nt h =
    Some (Inr (probe_index (capacity t) h (Suc d),
               t\<lparr>collisions := collisions t + of_nat (Suc d)\<rparr>))"
  using assms
proof (induction d arbitrary: t h)
  case 0
  then show ?case
    by (subst rehash_probe.simps)
       (simp add: probe_index_less not_le Let_def probe_index_Suc
          probe_index_0 [symmetric])
next
  case (Suc d)
  let ?t' = "t\<lparr>collisions := collisions t + 1\<rparr>"
  have occ1: "key (nt ! probe_index (capacity t) h (Suc 0)) \<noteq> NULL"
    using Suc.prems(3) by blast
  have step: "rehash_probe ?t' nt (h + 1) =
    Some (Inr (probe_index (capacity ?t') (h + 1) (Suc d),
               ?t'\<lparr>collisions := collisions ?t' + of_nat (Suc d)\<rparr>))"
    using Suc.prems by (intro Suc.IH) (auto simp: probe_index_Suc)
  show ?case
    using occ1 step Suc.prems(1,2)
    by (subst rehash_probe.simps)
       (simp add: probe_index_Suc probe_index_less not_le Let_def
          probe_index_0 [symmetric] add.assoc)
qed

lemma mod_cycle_back:
  assumes "j < cap"
  shows "((a + Suc j) mod cap = a mod cap) \<longleftrightarrow> Suc j = (cap::nat)"
proof
  assume "Suc j = cap"
  then show "(a + Suc j) mod cap = a mod cap" by (metis mod_add_self2)
next
  assume eq: "(a + Suc j) mod cap = a mod cap"
  have "cap dvd (a + Suc j) - a"
    using eq by (subst mod_eq_dvd_iff_nat [symmetric]) simp_all
  then have "cap dvd Suc j" by simp
  then have "cap \<le> Suc j" by (rule dvd_imp_le) simp
  with assms show "Suc j = cap" by simp
qed

lemma ht_has_loop_scan:
  assumes "capacity t = cap" "length (table t) = cap" "cap dvd 2 ^ 64" "j < cap"
  shows "ht_has_loop t k (unat h mod cap) (h + of_nat j) ((unat h + j) mod cap) =
    Some (Inr (case has_scan (equals_fcn t) k
                      (map (\<lambda>i. table t ! ((unat h + i) mod cap)) [j..<cap]) of
                 (found, n) \<Rightarrow> (found, t\<lparr>collisions := collisions t + of_nat n\<rparr>)))"
  using assms
proof (induction "cap - j" arbitrary: j t)
  case 0
  then show ?case by simp
next
  case (Suc m)
  let ?t' = "t\<lparr>collisions := collisions t + 1\<rparr>"
  have pos: "0 < cap" using Suc.prems by simp
  have upt: "[j..<cap] = j # [Suc j..<cap]"
    using Suc.prems by (simp add: upt_conv_Cons)
  have nxt: "unat (h + of_nat j + 1) mod cap = (unat h + Suc j) mod cap"
    using probe_index_dvd [OF Suc.prems(3), of h "Suc j"]
    by (simp add: probe_index_def ac_simps)
  show ?case
  proof (cases "Suc j = cap")
    case True
    then have cyc: "(unat h + Suc j) mod cap = unat h mod cap"
      using mod_cycle_back [of j cap "unat h"] Suc.prems by simp
    show ?thesis
      using Suc.prems pos True cyc nxt
      by (subst ht_has_loop.simps) (simp add: upt Let_def not_le)
  next
    case False
    then have lt: "Suc j < cap" using Suc.prems by simp
    have ncyc: "(unat h + Suc j) mod cap \<noteq> unat h mod cap"
      using mod_cycle_back [of j cap "unat h"] Suc.prems False by simp
    have step: "ht_has_loop ?t' k (unat h mod cap) (h + of_nat (Suc j)) ((unat h + Suc j) mod cap) =
      Some (Inr (case has_scan (equals_fcn ?t') k
                      (map (\<lambda>i. table ?t' ! ((unat h + i) mod cap)) [Suc j..<cap]) of
                 (found, n) \<Rightarrow> (found, ?t'\<lparr>collisions := collisions ?t' + of_nat n\<rparr>)))"
      using Suc.hyps(2) Suc.prems lt by (intro Suc.hyps(1)) auto
    show ?thesis
      using Suc.prems pos ncyc nxt step
      by (subst ht_has_loop.simps)
         (simp add: upt Let_def not_le ac_simps split: prod.splits)
  qed
qed

lemma ht_has_refines_spec:
  assumes "0 < capacity t" "length (table t) = capacity t" "capacity t dvd 2 ^ 64"
  shows "ht_has t k = Some (Inr (has_spec t k))"
  using assms ht_has_loop_scan [of t "capacity t" 0 k "hash_fcn t k"]
  by (simp add: ht_has_def has_spec_def probe_slots_def Let_def)

lemma has_scan_stop:
  assumes "\<forall>s\<in>set xs. key s \<noteq> NULL \<and> \<not> eq k (key s)"
    and "key s = NULL \<or> eq k (key s)"
  shows "has_scan eq k (xs @ s # ys) = (key s \<noteq> NULL, length xs)"
  using assms by (induction xs) auto

lemma has_scan_all:
  assumes "\<forall>s\<in>set xs. key s \<noteq> NULL \<and> \<not> eq k (key s)"
  shows "has_scan eq k xs = (False, length xs)"
  using assms by (induction xs) auto

lemma ht_has_stop:
  assumes cap: "0 < capacity t" "length (table t) = capacity t" "capacity t dvd 2 ^ 64"
    and d: "d < capacity t"
    and run: "\<forall>j<d. key (table t ! probe_index (capacity t) (hash_fcn t k) j) \<noteq> NULL \<and>
               \<not> equals_fcn t k (key (table t ! probe_index (capacity t) (hash_fcn t k) j))"
    and stop: "key (table t ! probe_index (capacity t) (hash_fcn t k) d) = NULL \<or>
               equals_fcn t k (key (table t ! probe_index (capacity t) (hash_fcn t k) d))"
  shows "ht_has t k =
    Some (Inr (key (table t ! probe_index (capacity t) (hash_fcn t k) d) \<noteq> NULL,
               t\<lparr>collisions := collisions t + of_nat d\<rparr>))"
proof -
  let ?slot = "\<lambda>j. table t ! ((unat (hash_fcn t k) + j) mod capacity t)"
  have pi: "\<And>j. probe_index (capacity t) (hash_fcn t k) j
              = (unat (hash_fcn t k) + j) mod capacity t"
    using cap(3) by (rule probe_index_dvd)
  have split: "[0..<capacity t] = [0..<d] @ d # [Suc d..<capacity t]"
    using d by (metis le_add2 less_imp_add_positive upt_add_eq_append upt_conv_Cons
        add.commute add_0 less_imp_le_nat le0 upt_rec)
  have "has_scan (equals_fcn t) k (map ?slot [0..<capacity t])
      = (key (?slot d) \<noteq> NULL, length (map ?slot [0..<d]))"
    unfolding split map_append list.map
    by (rule has_scan_stop) (use run stop pi in auto)
  then show ?thesis
    using cap by (simp add: ht_has_refines_spec has_spec_def probe_slots_def Let_def pi)
qed

lemma ex_empty_slot:
  assumes "length (occupied_slots tab) < length tab"
  shows "\<exists>i<length tab. key (tab ! i) = NULL"
proof (rule ccontr)
  assume "\<not> ?thesis"
  then have "\<forall>p\<in>set tab. key p \<noteq> NULL"
    by (auto simp: in_set_conv_nth)
  then have "occupied_slots tab = tab"
    by (simp add: occupied_slots_def)
  with assms show False by simp
qed

lemma probe_covers:
  assumes "cap dvd 2 ^ 64" "i < cap"
  shows "\<exists>d<cap. probe_index cap h d = i"
proof -
  let ?a = "unat h mod cap"
  let ?d = "(i + cap - ?a) mod cap"
  have pos: "0 < cap" using assms by simp
  have a: "?a < cap" using pos by simp
  have "(unat h + ?d) mod cap = (?a + (i + cap - ?a)) mod cap"
    by (metis mod_add_eq mod_mod_trivial)
  also have "\<dots> = (i + cap) mod cap" using a by simp
  also have "\<dots> = i" using assms by simp
  finally have "probe_index cap h ?d = i"
    using assms by (simp add: probe_index_dvd)
  moreover have "?d < cap" using pos by simp
  ultimately show ?thesis by blast
qed

lemma first_stop:
  assumes "\<exists>d<(cap::nat). P d"
  shows "\<exists>d<cap. P d \<and> (\<forall>j<d. \<not> P j)"
proof -
  from assms obtain d where d: "d < cap" "P d" by blast
  define m where "m = (LEAST n. P n)"
  have "P m" unfolding m_def using d(2) by (rule LeastI)
  moreover have "m \<le> d" unfolding m_def using d(2) by (rule Least_le)
  moreover have "\<forall>j<m. \<not> P j" unfolding m_def using not_less_Least by blast
  ultimately show ?thesis using d(1) by (intro exI [of _ m]) simp
qed

text \<open>With a free slot in the array, every probe sequence stops.\<close>

lemma probe_stops:
  assumes "0 < cap" "length tab = cap" "cap dvd 2 ^ 64"
    and "length (occupied_slots tab) < cap"
  shows "\<exists>d<cap. (key (tab ! probe_index cap h d) = NULL \<or> eq k (key (tab ! probe_index cap h d)))
           \<and> (\<forall>j<d. key (tab ! probe_index cap h j) \<noteq> NULL \<and> \<not> eq k (key (tab ! probe_index cap h j)))"
proof -
  obtain i where i: "i < cap" "key (tab ! i) = NULL"
    using ex_empty_slot [of tab] assms by auto
  obtain d where "d < cap" "probe_index cap h d = i"
    using probe_covers [OF assms(3) i(1)] by blast
  then have "\<exists>d<cap. key (tab ! probe_index cap h d) = NULL \<or> eq k (key (tab ! probe_index cap h d))"
    using i by auto
  from first_stop [OF this] show ?thesis by auto
qed

lemma stop_empty_absent:
  assumes pinv: "probe_inv hf cap tab" and cb: "callbacks_ok hf eq"
    and run: "\<forall>j<d. \<not> eq k (key (tab ! probe_index cap (hf k) j))"
    and stop: "key (tab ! probe_index cap (hf k) d) = NULL"
    and i: "i < cap" "key (tab ! i) \<noteq> NULL"
  shows "\<not> eq k (key (tab ! i))"
proof
  assume m: "eq k (key (tab ! i))"
  then have h: "hf (key (tab ! i)) = hf k"
    using cb by (metis callbacks_ok_def)
  obtain d' where d': "probe_index cap (hf k) d' = i"
      "\<forall>j<d'. key (tab ! probe_index cap (hf k) j) \<noteq> NULL"
    using pinv i h unfolding probe_inv_def by metis
  consider "d' < d" | "d' = d" | "d < d'" by linarith
  then show False
  proof cases
    case 1 then show ?thesis using run d'(1) m by auto
  next
    case 2 then show ?thesis using stop d'(1) i(2) by auto
  next
    case 3 then show ?thesis using stop d'(2) by auto
  qed
qed

subsection \<open>Evaluating the examples\<close>

lemma calloc_4:
  "calloc 4 = [\<lparr>key = NULL, val = NULL\<rparr>, \<lparr>key = NULL, val = NULL\<rparr>,
    \<lparr>key = NULL, val = NULL\<rparr>, \<lparr>key = NULL, val = NULL\<rparr>]"
proof -
  have "replicate 4 x = [x, x, x, x]" for x :: KeyValuePair
    by (simp add: numeral_eq_Suc)
  then show ?thesis by (simp add: calloc_def)
qed

lemma upt_4: "[0..<4] = [0, 1, 2, 3]"
  by (simp add: upt_rec)

lemma ex_empty_put_null: "ht_put ex_empty 1 NULL = Some (Inr (NULL, ex_null))"
  by (simp add: ht_put_def ex_empty_def ht_create_def LOAD_THRESHOLD_def ht_put_place_def
      calloc_4 ex_null_def ex_hash_def)

subsection \<open>Collisions counted by a lookup\<close>

lemma has_scan_count: "snd (has_scan eq k xs) \<le> length xs"
  by (induction xs) (auto split: prod.splits)

lemma probe_slots_count:
  "length (probe_slots t k) = capacity t \<and>
   snd (has_scan (equals_fcn t) k (probe_slots t k)) \<le> capacity t"
  using has_scan_count [of "equals_fcn t" k "probe_slots t k"]
  by (simp add: probe_slots_def)

lemma has_spec_collisions:
  "collisions (snd (has_spec t k)) =
     collisions t + of_nat (snd (has_scan (equals_fcn t) k (probe_slots t k)))"
  by (simp add: has_spec_def probe_slots_def split: prod.splits)

text \<open>A counter that does not reach \<open>2 ^ 31\<close> reads as the sum.\<close>

lemma sint_add_of_nat:
  fixes c :: "32 word"
  assumes "sint c + int n < 2 ^ 31"
  shows "sint (c + of_nat n) = sint c + int n"
proof -
  have lo: "- (2 ^ 31) \<le> sint c" using sint_ge [of c] by simp
  have "c + of_nat n = word_of_int (sint c + int n)" by simp
  then have "sint (c + of_nat n) = signed_take_bit 31 (sint c + int n)"
    by (simp only: sint_sbintrunc') simp
  also have "\<dots> = sint c + int n"
    using lo assms by (intro signed_take_bit_int_eq_self) simp_all
  finally show ?thesis .
qed

subsection \<open>A lookup that succeeds\<close>

lemma has_scan_True:
  assumes "has_scan eq k xs = (True, n)"
  shows "\<exists>d<length xs. n = d \<and>
           (\<forall>j<d. key (xs ! j) \<noteq> NULL \<and> \<not> eq k (key (xs ! j))) \<and>
           key (xs ! d) \<noteq> NULL \<and> eq k (key (xs ! d))"
  using assms
proof (induction xs arbitrary: n)
  case Nil
  then show ?case by simp
next
  case (Cons s xs)
  show ?case
  proof (cases "key s = NULL \<or> eq k (key s)")
    case True
    with Cons.prems have "key s \<noteq> NULL" "eq k (key s)" "n = 0"
      by (auto split: if_splits)
    then show ?thesis by (intro exI [of _ 0]) simp
  next
    case False
    with Cons.prems obtain m where m: "has_scan eq k xs = (True, m)" "n = m + 1"
      by (auto split: if_splits prod.splits)
    from Cons.IH [OF m(1)] obtain d where d: "d < length xs" "m = d"
      "\<forall>j<d. key (xs ! j) \<noteq> NULL \<and> \<not> eq k (key (xs ! j))"
      "key (xs ! d) \<noteq> NULL" "eq k (key (xs ! d))"
      by blast
    have "\<forall>j<Suc d. key ((s # xs) ! j) \<noteq> NULL \<and> \<not> eq k (key ((s # xs) ! j))"
      using d(3) False by (auto simp: nth_Cons split: nat.splits)
    with d m(2) show ?thesis
      by (intro exI [of _ "Suc d"]) simp
  qed
qed

lemma ht_has_True_run:
  assumes cap: "0 < capacity t" "length (table t) = capacity t" "capacity t dvd 2 ^ 64"
    and has: "ht_has t k = Some (Inr (True, t'))"
  shows "\<exists>d<capacity t. t' = t\<lparr>collisions := collisions t + of_nat d\<rparr> \<and>
     (\<forall>j<d. key (table t ! probe_index (capacity t) (hash_fcn t k) j) \<noteq> NULL \<and>
            \<not> equals_fcn t k (key (table t ! probe_index (capacity t) (hash_fcn t k) j))) \<and>
     key (table t ! probe_index (capacity t) (hash_fcn t k) d) \<noteq> NULL \<and>
     equals_fcn t k (key (table t ! probe_index (capacity t) (hash_fcn t k) d))"
proof -
  let ?xs = "map (\<lambda>j. table t ! ((unat (hash_fcn t k) + j) mod capacity t)) [0..<capacity t]"
  have pi: "\<And>j. probe_index (capacity t) (hash_fcn t k) j
              = (unat (hash_fcn t k) + j) mod capacity t"
    using cap(3) by (rule probe_index_dvd)
  have "has_spec t k = (True, t')"
    using has ht_has_refines_spec [OF cap, of k] by simp
  then obtain n where n: "has_scan (equals_fcn t) k ?xs = (True, n)"
    "t' = t\<lparr>collisions := collisions t + of_nat n\<rparr>"
    by (auto simp: has_spec_def probe_slots_def Let_def split: prod.splits)
  from has_scan_True [OF n(1)] obtain d where d: "d < capacity t" "n = d"
    "\<forall>j<d. key (?xs ! j) \<noteq> NULL \<and> \<not> equals_fcn t k (key (?xs ! j))"
    "key (?xs ! d) \<noteq> NULL" "equals_fcn t k (key (?xs ! d))"
    by auto
  show ?thesis
    using d n(2) by (intro exI [of _ d]) (simp add: pi)
qed

lemma ht_get_after_has:
  assumes cap: "0 < capacity t" "length (table t) = capacity t"
    and has: "ht_has t k = Some (Inr (True, t\<lparr>collisions := c\<rparr>))"
    and run: "\<forall>j<d. \<not> equals_fcn t k (key (table t ! probe_index (capacity t) (hash_fcn t k) j))"
    and stop: "equals_fcn t k (key (table t ! probe_index (capacity t) (hash_fcn t k) d))"
  shows "ht_get t k =
    Some (Inr (val (table t ! probe_index (capacity t) (hash_fcn t k) d), t\<lparr>collisions := c\<rparr>))"
proof -
  let ?t' = "t\<lparr>collisions := c\<rparr>"
  have "ht_get_loop ?t' k (hash_fcn ?t' k) (table ?t' ! probe_index (capacity ?t') (hash_fcn ?t' k) 0)
      = Some (Inr (val (table ?t' ! probe_index (capacity ?t') (hash_fcn ?t' k) d)))"
    using cap run stop by (intro ht_get_loop_run) simp_all
  then show ?thesis
    using cap has by (simp add: ht_get_def Let_def probe_index_0 not_le)
qed

lemma ex_two_has: "ht_has ex_two 5 = Some (Inr (True, ex_two\<lparr>collisions := 2\<rparr>))"
proof -
  have "has_spec ex_two 5 = (True, ex_two\<lparr>collisions := 2\<rparr>)"
    by (simp add: has_spec_def probe_slots_def ex_two_def ex_hash_def upt_4)
  then show ?thesis
    using ht_has_refines_spec [of ex_two 5] by (simp add: ex_two_def)
qed

subsection \<open>The invariants under a write to one slot\<close>

lemma probe_index_inj:
  assumes "cap dvd 2 ^ 64" "i < cap" "j < cap" "probe_index cap h i = probe_index cap h j"
  shows "i = j"
proof -
  have *: "x = y" if "x \<le> y" "y < cap" "(a + x) mod cap = (a + y) mod cap" for x y a :: nat
  proof -
    have "cap dvd (a + y) - (a + x)"
      using that by (subst mod_eq_dvd_iff_nat [symmetric]) simp_all
    then have "cap dvd y - x" by simp
    moreover have "y - x < cap" using that by simp
    ultimately have "y - x = 0" by (meson dvd_imp_le not_le zero_less_iff_neq_zero)
    with that show ?thesis by simp
  qed
  have eq: "(unat h + i) mod cap = (unat h + j) mod cap"
    using assms by (simp add: probe_index_dvd)
  show ?thesis
  proof (cases "i \<le> j")
    case True
    then show ?thesis using * [of i j "unat h"] assms eq by simp
  next
    case False
    then show ?thesis using * [of j i "unat h"] assms eq by simp
  qed
qed

lemma probe_inv_insert:
  assumes inv: "probe_inv hf cap tab" and len: "length tab = cap"
    and d: "d < cap" "probe_index cap (hf (key p)) d = i"
    and run: "\<forall>j<d. key (tab ! probe_index cap (hf (key p)) j) \<noteq> NULL"
    and p: "key p \<noteq> NULL"
  shows "probe_inv hf cap (tab[i := p])"
  unfolding probe_inv_def
proof (intro allI impI)
  fix i' assume i': "i' < cap" "key (tab[i := p] ! i') \<noteq> NULL"
  have keep: "key (tab[i := p] ! x) \<noteq> NULL" if "x < cap" "key (tab ! x) \<noteq> NULL" for x
    using that p len by (cases "x = i") simp_all
  have pos: "0 < cap" using d by simp
  show "\<exists>d<cap. probe_index cap (hf (key (tab[i := p] ! i'))) d = i' \<and>
          (\<forall>j<d. key (tab[i := p] ! probe_index cap (hf (key (tab[i := p] ! i'))) j) \<noteq> NULL)"
  proof (cases "i' = i")
    case True
    then have "tab[i := p] ! i' = p" using i' len by simp
    then show ?thesis
      using d run keep pos True by (intro exI [of _ d]) (simp add: probe_index_less)
  next
    case False
    then have same: "tab[i := p] ! i' = tab ! i'" by simp
    with i' inv obtain d' where d': "d' < cap" "probe_index cap (hf (key (tab ! i'))) d' = i'"
      "\<forall>j<d'. key (tab ! probe_index cap (hf (key (tab ! i'))) j) \<noteq> NULL"
      unfolding probe_inv_def by metis
    then show ?thesis
      using keep pos same by (intro exI [of _ d']) (simp add: probe_index_less)
  qed
qed

lemma probe_inv_same_keys:
  assumes "probe_inv hf cap tab" "\<forall>i<cap. key (tab' ! i) = key (tab ! i)" "0 < cap"
  shows "probe_inv hf cap tab'"
  using assms unfolding probe_inv_def by (simp add: probe_index_less)

lemma uniq_keys_same_keys:
  assumes "uniq_keys eq tab" "length tab' = length tab"
    "\<forall>i<length tab. key (tab' ! i) = key (tab ! i)"
  shows "uniq_keys eq tab'"
  using assms unfolding uniq_keys_def by simp

lemma uniq_keys_insert:
  assumes "uniq_keys eq tab"
    and "\<forall>j<length tab. key (tab ! j) \<noteq> NULL \<longrightarrow>
           \<not> eq (key p) (key (tab ! j)) \<and> \<not> eq (key (tab ! j)) (key p)"
  shows "uniq_keys eq (tab[i := p])"
  unfolding uniq_keys_def
proof (intro allI impI)
  fix a b assume a: "a < length (tab[i := p])" and b: "b < length (tab[i := p])"
    and h: "key (tab[i := p] ! a) \<noteq> NULL \<and> key (tab[i := p] ! b) \<noteq> NULL \<and>
            eq (key (tab[i := p] ! a)) (key (tab[i := p] ! b))"
  show "a = b"
  proof (rule ccontr)
    assume ne: "a \<noteq> b"
    consider "a = i" | "b = i" | "a \<noteq> i" "b \<noteq> i" by blast
    then show False
    proof cases
      case 1
      then show ?thesis using a b h ne assms(2) by (auto simp: nth_list_update)
    next
      case 2
      then show ?thesis using a b h ne assms(2) by (auto simp: nth_list_update)
    next
      case 3
      then show ?thesis using a b h ne assms(1) unfolding uniq_keys_def by auto
    qed
  qed
qed

lemma mset_filter_update:
  assumes "i < length xs" "P p"
  shows "mset (filter P (xs[i := p])) =
    add_mset p (mset (filter P xs) - (if P (xs ! i) then {#xs ! i#} else {#}))"
proof -
  have "mset (filter P (xs[i := p])) = filter_mset P (mset (xs[i := p]))"
    by (rule mset_filter)
  also have "\<dots> = filter_mset P (add_mset p (mset xs - {#xs ! i#}))"
    using assms(1) by (simp only: mset_update)
  also have "\<dots> = add_mset p (filter_mset P (mset xs) - filter_mset P {#xs ! i#})"
    using assms(2) by (simp only: filter_mset_add_mset filter_diff_mset if_True)
  also have "\<dots> = add_mset p (mset (filter P xs) - (if P (xs ! i) then {#xs ! i#} else {#}))"
    by (simp add: filter_mset_add_mset)
  finally show ?thesis .
qed

lemma occupied_slots_insert:
  assumes "i < length tab" "key (tab ! i) = NULL" "key p \<noteq> NULL"
  shows "mset (occupied_slots (tab[i := p])) = add_mset p (mset (occupied_slots tab))"
  unfolding occupied_slots_def
  using mset_filter_update [of i tab "\<lambda>p. key p \<noteq> NULL" p] assms by simp

lemma occupied_slots_update:
  assumes "i < length tab" "key (tab ! i) \<noteq> NULL" "key p \<noteq> NULL"
  shows "mset (occupied_slots (tab[i := p])) =
    add_mset p (mset (occupied_slots tab) - {#tab ! i#})"
  unfolding occupied_slots_def
  using mset_filter_update [of i tab "\<lambda>p. key p \<noteq> NULL" p] assms by simp

lemma length_occupied_slots: "length (occupied_slots tab) = size (mset (occupied_slots tab))"
  by simp

lemma length_occupied_insert:
  assumes "i < length tab" "key (tab ! i) = NULL" "key p \<noteq> NULL"
  shows "length (occupied_slots (tab[i := p])) = Suc (length (occupied_slots tab))"
  using occupied_slots_insert [OF assms] by (metis length_occupied_slots size_add_mset)

lemma length_occupied_update:
  assumes "i < length tab" "key (tab ! i) \<noteq> NULL" "key p \<noteq> NULL"
  shows "length (occupied_slots (tab[i := p])) = length (occupied_slots tab)"
proof -
  have "tab ! i \<in># mset (occupied_slots tab)"
    using assms by (simp add: occupied_slots_def)
  then show ?thesis
    using occupied_slots_update [OF assms]
    by (metis length_occupied_slots size_add_mset size_Diff_singleton Suc_pred
        size_Suc_Diff1)
qed

subsection \<open>Lookup and placement in a well-formed table\<close>

lemma ht_wf_collisions [simp]: "ht_wf (t\<lparr>collisions := c\<rparr>) = ht_wf t"
  by (simp add: ht_wf_def)

lemma present_collisions [simp]: "present (t\<lparr>collisions := c\<rparr>) k = present t k"
  by (simp add: present_def)

lemma present_iff_nth:
  assumes "length (table t) = capacity t"
  shows "present t k \<longleftrightarrow>
    (\<exists>i<capacity t. key (table t ! i) \<noteq> NULL \<and> equals_fcn t k (key (table t ! i)))"
  using assms unfolding present_def by (metis in_set_conv_nth)

lemma stop_present:
  assumes wf: "ht_wf t" and i: "i < capacity t" "key (table t ! i) \<noteq> NULL"
    and m: "equals_fcn t k (key (table t ! i))"
  shows "\<exists>d<capacity t. probe_index (capacity t) (hash_fcn t k) d = i \<and>
    (\<forall>j<d. key (table t ! probe_index (capacity t) (hash_fcn t k) j) \<noteq> NULL \<and>
           \<not> equals_fcn t k (key (table t ! probe_index (capacity t) (hash_fcn t k) j)))"
proof -
  let ?cap = "capacity t" and ?h = "hash_fcn t k" and ?tab = "table t"
  have cb: "callbacks_ok (hash_fcn t) (equals_fcn t)" and len: "length ?tab = ?cap"
    and dvd: "?cap dvd 2 ^ 64" and uq: "uniq_keys (equals_fcn t) ?tab"
    and pinv: "probe_inv (hash_fcn t) ?cap ?tab"
    using wf by (simp_all add: ht_wf_def)
  have h: "hash_fcn t (key (?tab ! i)) = ?h"
    using cb m by (metis callbacks_ok_def)
  obtain d where d: "d < ?cap" "probe_index ?cap ?h d = i"
    "\<forall>j<d. key (?tab ! probe_index ?cap ?h j) \<noteq> NULL"
    using pinv i h unfolding probe_inv_def by metis
  have "\<not> equals_fcn t k (key (?tab ! probe_index ?cap ?h j))" if j: "j < d" for j
  proof
    let ?x = "probe_index ?cap ?h j"
    assume mj: "equals_fcn t k (key (?tab ! ?x))"
    have x: "?x < ?cap" using i by (simp add: probe_index_less)
    have "equals_fcn t (key (?tab ! ?x)) (key (?tab ! i))"
      using cb m mj unfolding callbacks_ok_def by blast
    then have "?x = i"
      using uq x i len d(3) j unfolding uniq_keys_def by auto
    then have "j = d"
      using probe_index_inj [OF dvd _ d(1), of j ?h] j d(1,2) by simp
    with j show False by simp
  qed
  with d show ?thesis by blast
qed

lemma stop_absent:
  assumes wf: "ht_wf t" and ab: "\<not> present t k"
  shows "\<exists>d<capacity t. key (table t ! probe_index (capacity t) (hash_fcn t k) d) = NULL \<and>
    (\<forall>j<d. key (table t ! probe_index (capacity t) (hash_fcn t k) j) \<noteq> NULL \<and>
           \<not> equals_fcn t k (key (table t ! probe_index (capacity t) (hash_fcn t k) j)))"
proof -
  let ?cap = "capacity t" and ?h = "hash_fcn t k" and ?tab = "table t"
  have len: "length ?tab = ?cap" and dvd: "?cap dvd 2 ^ 64" and pos: "0 < ?cap"
    using wf by (simp_all add: ht_wf_def)
  have "length (occupied_slots ?tab) \<le> occupancy t" "occupancy t < ?cap"
    using wf by (simp_all add: ht_wf_def)
  then have room: "length (occupied_slots ?tab) < ?cap" by simp
  obtain d where d: "d < ?cap"
    "key (?tab ! probe_index ?cap ?h d) = NULL \<or> equals_fcn t k (key (?tab ! probe_index ?cap ?h d))"
    "\<forall>j<d. key (?tab ! probe_index ?cap ?h j) \<noteq> NULL \<and>
           \<not> equals_fcn t k (key (?tab ! probe_index ?cap ?h j))"
    using probe_stops [OF pos len dvd room, of ?h "equals_fcn t" k] by blast
  have "key (?tab ! probe_index ?cap ?h d) = NULL"
  proof (rule ccontr)
    assume occ: "key (?tab ! probe_index ?cap ?h d) \<noteq> NULL"
    with d(2) have "equals_fcn t k (key (?tab ! probe_index ?cap ?h d))" by simp
    with occ have "present t k"
      using pos by (subst present_iff_nth [OF len])
        (intro exI [of _ "probe_index ?cap ?h d"], simp add: probe_index_less)
    with ab show False by simp
  qed
  with d show ?thesis by blast
qed

lemma ht_has_present:
  assumes "ht_wf t" "i < capacity t" "key (table t ! i) \<noteq> NULL"
    "equals_fcn t k (key (table t ! i))"
  shows "\<exists>d<capacity t. ht_has t k = Some (Inr (True, t\<lparr>collisions := collisions t + of_nat d\<rparr>))"
proof -
  from stop_present [OF assms] obtain d where d: "d < capacity t"
    "probe_index (capacity t) (hash_fcn t k) d = i"
    "\<forall>j<d. key (table t ! probe_index (capacity t) (hash_fcn t k) j) \<noteq> NULL \<and>
           \<not> equals_fcn t k (key (table t ! probe_index (capacity t) (hash_fcn t k) j))"
    by blast
  have "ht_has t k = Some (Inr (key (table t ! probe_index (capacity t) (hash_fcn t k) d) \<noteq> NULL,
      t\<lparr>collisions := collisions t + of_nat d\<rparr>))"
    using assms(1,3,4) d by (intro ht_has_stop) (simp_all add: ht_wf_def)
  with d assms(3) show ?thesis by auto
qed

lemma ht_has_absent:
  assumes "ht_wf t" "\<not> present t k"
  shows "\<exists>d<capacity t. ht_has t k = Some (Inr (False, t\<lparr>collisions := collisions t + of_nat d\<rparr>))"
proof -
  from stop_absent [OF assms] obtain d where d: "d < capacity t"
    "key (table t ! probe_index (capacity t) (hash_fcn t k) d) = NULL"
    "\<forall>j<d. key (table t ! probe_index (capacity t) (hash_fcn t k) j) \<noteq> NULL \<and>
           \<not> equals_fcn t k (key (table t ! probe_index (capacity t) (hash_fcn t k) j))"
    by blast
  have "ht_has t k = Some (Inr (key (table t ! probe_index (capacity t) (hash_fcn t k) d) \<noteq> NULL,
      t\<lparr>collisions := collisions t + of_nat d\<rparr>))"
    using assms(1) d by (intro ht_has_stop) (simp_all add: ht_wf_def)
  with d show ?thesis by auto
qed

lemma ht_get_present:
  assumes "ht_wf t" "i < capacity t" "key (table t ! i) \<noteq> NULL"
    "equals_fcn t k (key (table t ! i))"
  shows "\<exists>d<capacity t. ht_get t k =
    Some (Inr (val (table t ! i), t\<lparr>collisions := collisions t + of_nat d\<rparr>))"
proof -
  from stop_present [OF assms] obtain d where d: "d < capacity t"
    "probe_index (capacity t) (hash_fcn t k) d = i"
    "\<forall>j<d. key (table t ! probe_index (capacity t) (hash_fcn t k) j) \<noteq> NULL \<and>
           \<not> equals_fcn t k (key (table t ! probe_index (capacity t) (hash_fcn t k) j))"
    by blast
  have has: "ht_has t k = Some (Inr (True, t\<lparr>collisions := collisions t + of_nat d\<rparr>))"
    using ht_has_stop [of t d k] assms d by (simp add: ht_wf_def)
  have "ht_get t k = Some (Inr (val (table t ! probe_index (capacity t) (hash_fcn t k) d),
      t\<lparr>collisions := collisions t + of_nat d\<rparr>))"
    using assms d has by (intro ht_get_after_has) (simp_all add: ht_wf_def)
  with d show ?thesis by auto
qed

lemma place_present:
  assumes "ht_wf t" "i < capacity t" "key (table t ! i) \<noteq> NULL"
    "equals_fcn t k (key (table t ! i))"
  shows "\<exists>d<capacity t. ht_put_place t k v =
    Some (Inr (val (table t ! i),
      t\<lparr>collisions := collisions t + of_nat d,
        table := (table t)[i := (table t ! i)\<lparr>val := v\<rparr>]\<rparr>))"
proof -
  let ?cap = "capacity t" and ?h = "hash_fcn t k" and ?tab = "table t"
  have len: "length ?tab = ?cap" and pos: "0 < ?cap"
    using assms(1) by (simp_all add: ht_wf_def)
  from stop_present [OF assms] obtain d where d: "d < ?cap" "probe_index ?cap ?h d = i"
    "\<forall>j<d. key (?tab ! probe_index ?cap ?h j) \<noteq> NULL \<and>
           \<not> equals_fcn t k (key (?tab ! probe_index ?cap ?h j))"
    by blast
  have occ: "\<forall>j\<le>d. key (?tab ! probe_index ?cap ?h j) \<noteq> NULL"
    using d assms(3) by (auto simp: le_less)
  have probe: "put_probe t k v ?h (probe_index ?cap ?h 0) =
    Some (Inr (val (?tab ! probe_index ?cap ?h d),
      t\<lparr>collisions := collisions t + of_nat d,
        table := ?tab[probe_index ?cap ?h d := (?tab ! probe_index ?cap ?h d)\<lparr>val := v\<rparr>]\<rparr>))"
    using len pos d occ assms(4) by (intro put_probe_update) auto
  have "key (?tab ! probe_index ?cap ?h 0) \<noteq> NULL" using occ by blast
  then have "ht_put_place t k v = put_probe t k v ?h (probe_index ?cap ?h 0)"
    using len mod_less_divisor [OF pos, of "unat ?h"]
    by (simp add: ht_put_place_def Let_def probe_index_0)
  with probe d show ?thesis by auto
qed

lemma place_absent:
  assumes "ht_wf t" "\<not> present t k"
  shows "\<exists>d<capacity t.
    key (table t ! probe_index (capacity t) (hash_fcn t k) d) = NULL \<and>
    (\<forall>j<d. key (table t ! probe_index (capacity t) (hash_fcn t k) j) \<noteq> NULL) \<and>
    ht_put_place t k v =
      Some (Inr (NULL,
        t\<lparr>collisions := collisions t + of_nat d,
          table := (table t)[probe_index (capacity t) (hash_fcn t k) d := \<lparr>key = k, val = v\<rparr>],
          occupancy := occupancy t + 1\<rparr>))"
proof -
  let ?cap = "capacity t" and ?h = "hash_fcn t k" and ?tab = "table t"
  have len: "length ?tab = ?cap" and pos: "0 < ?cap"
    using assms(1) by (simp_all add: ht_wf_def)
  from stop_absent [OF assms] obtain d where d: "d < ?cap"
    "key (?tab ! probe_index ?cap ?h d) = NULL"
    "\<forall>j<d. key (?tab ! probe_index ?cap ?h j) \<noteq> NULL \<and>
           \<not> equals_fcn t k (key (?tab ! probe_index ?cap ?h j))"
    by blast
  have "ht_put_place t k v =
      Some (Inr (NULL,
        t\<lparr>collisions := collisions t + of_nat d,
          table := ?tab[probe_index ?cap ?h d := \<lparr>key = k, val = v\<rparr>],
          occupancy := occupancy t + 1\<rparr>))"
  proof (cases d)
    case 0
    then show ?thesis
      using d len pos by (simp add: ht_put_place_def Let_def probe_index_0 not_le)
  next
    case (Suc e)
    have probe: "put_probe t k v ?h (probe_index ?cap ?h 0) =
      Some (Inr (NULL,
        t\<lparr>collisions := collisions t + of_nat (Suc e),
          table := ?tab[probe_index ?cap ?h (Suc e) := \<lparr>key = k, val = v\<rparr>],
          occupancy := occupancy t + 1\<rparr>))"
      using len pos d Suc by (intro put_probe_insert) auto
    have "key (?tab ! probe_index ?cap ?h 0) \<noteq> NULL" using d(3) Suc by blast
    then have "ht_put_place t k v = put_probe t k v ?h (probe_index ?cap ?h 0)"
      using len mod_less_divisor [OF pos, of "unat ?h"]
    by (simp add: ht_put_place_def Let_def probe_index_0)
    with probe Suc show ?thesis by simp
  qed
  with d show ?thesis by blast
qed

lemma upd_key:
  assumes len: "length (table t) = capacity t" and i: "i < capacity t"
  shows "key ((table t)[i := (table t ! i)\<lparr>val := v\<rparr>] ! j) = key (table t ! j)"
proof (cases "j = i")
  case True
  have "i < length (table t)" using len i by simp
  then have "(table t)[i := (table t ! i)\<lparr>val := v\<rparr>] ! i = (table t ! i)\<lparr>val := v\<rparr>"
    by (rule nth_list_update_eq)
  then show ?thesis using True by simp
next
  case False
  then show ?thesis by simp
qed

lemma wf_update:
  assumes "ht_wf t" "i < capacity t" "key (table t ! i) \<noteq> NULL"
  shows "ht_wf (t\<lparr>table := (table t)[i := (table t ! i)\<lparr>val := v\<rparr>]\<rparr>)"
proof -
  let ?tab' = "(table t)[i := (table t ! i)\<lparr>val := v\<rparr>]"
  have len: "length (table t) = capacity t" and pos: "0 < capacity t"
    and pinv: "probe_inv (hash_fcn t) (capacity t) (table t)"
    and uq: "uniq_keys (equals_fcn t) (table t)"
    using assms(1) by (simp_all add: ht_wf_def)
  have keys: "\<forall>j<capacity t. key (?tab' ! j) = key (table t ! j)"
    using upd_key [OF len assms(2)] by blast
  have 1: "probe_inv (hash_fcn t) (capacity t) ?tab'"
    using pinv keys pos by (rule probe_inv_same_keys)
  have 2: "uniq_keys (equals_fcn t) ?tab'"
    using uq _ keys [folded len] by (rule uniq_keys_same_keys) simp
  have 3: "length (occupied_slots ?tab') = length (occupied_slots (table t))"
    using assms(2,3) len by (intro length_occupied_update) simp_all
  show ?thesis
    using assms(1) 1 2 3 unfolding ht_wf_def by simp
qed

lemma length_occupied_same_keys:
  assumes "map key tab' = map key tab"
  shows "length (occupied_slots tab') = length (occupied_slots tab)"
proof -
  have gen: "map key (occupied_slots xs) = filter (\<lambda>x. x \<noteq> NULL) (map key xs)" for xs
    by (simp add: occupied_slots_def filter_map o_def)
  have "map key (occupied_slots tab') = map key (occupied_slots tab)"
    by (simp only: gen assms)
  then show ?thesis by (metis length_map)
qed

lemma wf_insert:
  assumes wf: "ht_wf t" and ab: "\<not> present t k"
    and d: "d < capacity t" "key (table t ! probe_index (capacity t) (hash_fcn t k) d) = NULL"
      "\<forall>j<d. key (table t ! probe_index (capacity t) (hash_fcn t k) j) \<noteq> NULL"
    and room: "occupancy t + 1 < capacity t"
  shows "ht_wf (t\<lparr>table := (table t)[probe_index (capacity t) (hash_fcn t k) d := \<lparr>key = k, val = v\<rparr>],
                 occupancy := occupancy t + 1\<rparr>)"
proof -
  let ?i = "probe_index (capacity t) (hash_fcn t k) d"
  let ?tab' = "(table t)[?i := \<lparr>key = k, val = v\<rparr>]"
  have len: "length (table t) = capacity t" and pos: "0 < capacity t"
    and c4: "4 \<le> capacity t" and dvd: "capacity t dvd 2 ^ 64"
    and cb: "callbacks_ok (hash_fcn t) (equals_fcn t)"
    and pinv: "probe_inv (hash_fcn t) (capacity t) (table t)"
    and cnt: "length (occupied_slots (table t)) \<le> occupancy t"
    using wf by (simp_all add: ht_wf_def)
  have i: "?i < length (table t)" using len pos by (simp add: probe_index_less)
  have uq: "uniq_keys (equals_fcn t) ?tab'"
  proof (intro uniq_keys_insert)
    show "uniq_keys (equals_fcn t) (table t)" using wf by (simp add: ht_wf_def)
    show "\<forall>j<length (table t). key (table t ! j) \<noteq> NULL \<longrightarrow>
       \<not> equals_fcn t (key \<lparr>key = k, val = v\<rparr>) (key (table t ! j)) \<and>
       \<not> equals_fcn t (key (table t ! j)) (key \<lparr>key = k, val = v\<rparr>)"
      using ab cb len unfolding present_iff_nth [OF len] callbacks_ok_def
      by (metis KeyValuePair.select_convs(1))
  qed
  have both: "probe_inv (hash_fcn t) (capacity t) ?tab' \<and>
    length (occupied_slots ?tab') \<le> occupancy t + 1"
  proof (cases "k = NULL")
    case True
    have same: "key (?tab' ! j) = key (table t ! j)" for j
    proof (cases "j = ?i")
      case True
      have "?tab' ! ?i = \<lparr>key = k, val = v\<rparr>" using i by (rule nth_list_update_eq)
      then show ?thesis using True \<open>k = NULL\<close> d(2) by simp
    next
      case False
      then show ?thesis by simp
    qed
    have keys: "map key ?tab' = map key (table t)"
      by (rule nth_equalityI) (simp_all add: same)
    have "probe_inv (hash_fcn t) (capacity t) ?tab'"
      using pinv _ pos by (rule probe_inv_same_keys) (simp add: same)
    moreover have "length (occupied_slots ?tab') = length (occupied_slots (table t))"
      using keys by (rule length_occupied_same_keys)
    ultimately show ?thesis using cnt by simp
  next
    case False
    have "key \<lparr>key = k, val = v\<rparr> \<noteq> NULL" using False by simp
    have "probe_inv (hash_fcn t) (capacity t) ?tab'"
      using pinv len d(1) _ _ \<open>key \<lparr>key = k, val = v\<rparr> \<noteq> NULL\<close>
      by (rule probe_inv_insert) (simp_all add: d(3))
    moreover have "length (occupied_slots ?tab') = Suc (length (occupied_slots (table t)))"
      using i d(2) \<open>key \<lparr>key = k, val = v\<rparr> \<noteq> NULL\<close> by (rule length_occupied_insert)
    ultimately show ?thesis using cnt by simp
  qed
  show ?thesis
    unfolding ht_wf_def using c4 len dvd cb uq both room by simp
qed

subsection \<open>The rehash\<close>

lemma first_free:
  assumes "0 < cap" "length tab = cap" "cap dvd 2 ^ 64"
    and "length (occupied_slots tab) < cap"
  shows "\<exists>d<cap. key (tab ! probe_index cap h d) = NULL \<and>
           (\<forall>j<d. key (tab ! probe_index cap h j) \<noteq> NULL)"
  using probe_stops [OF assms, of h "\<lambda>_ _. False" undefined] by simp

lemma rehash_step:
  assumes cap: "0 < capacity t" "length nt = capacity t"
    and p: "key pair \<noteq> NULL"
    and d: "key (nt ! probe_index (capacity t) (hash_fcn t (key pair)) d) = NULL"
      "\<forall>j<d. key (nt ! probe_index (capacity t) (hash_fcn t (key pair)) j) \<noteq> NULL"
  shows "rehash_loop t (pair # rest) nt =
    rehash_loop (t\<lparr>collisions := collisions t + of_nat d\<rparr>) rest
      (nt[probe_index (capacity t) (hash_fcn t (key pair)) d := pair])"
proof (cases d)
  case 0
  then show ?thesis
    using cap p d mod_less_divisor [OF cap(1), of "unat (hash_fcn t (key pair))"]
    by (simp add: Let_def probe_index_0)
next
  case (Suc e)
  have "rehash_probe t nt (hash_fcn t (key pair)) =
    Some (Inr (probe_index (capacity t) (hash_fcn t (key pair)) (Suc e),
               t\<lparr>collisions := collisions t + of_nat (Suc e)\<rparr>))"
    using cap d Suc by (intro rehash_probe_run) auto
  moreover have "key (nt ! probe_index (capacity t) (hash_fcn t (key pair)) 0) \<noteq> NULL"
    using d(2) Suc by blast
  ultimately show ?thesis
    using cap p Suc mod_less_divisor [OF cap(1), of "unat (hash_fcn t (key pair))"]
    by (simp add: Let_def probe_index_0)
qed

lemma rehash_loop_wf:
  assumes t: "capacity t = cap" "hash_fcn t = hf" "equals_fcn t = eq"
    and cap: "0 < cap" "cap dvd 2 ^ 64"
    and cb: "callbacks_ok hf eq"
    and nt: "length nt = cap" "probe_inv hf cap nt" "uniq_keys eq nt"
    and room: "length (occupied_slots nt) + length (occupied_slots cells) < cap"
    and sep: "\<forall>p\<in>set cells. \<forall>q\<in>set nt. key p \<noteq> NULL \<and> key q \<noteq> NULL \<longrightarrow> \<not> eq (key p) (key q)"
    and srt: "sorted_wrt (\<lambda>p q. key p \<noteq> NULL \<and> key q \<noteq> NULL \<longrightarrow> \<not> eq (key p) (key q)) cells"
  shows "\<exists>n nt'. rehash_loop t cells nt = Some (Inr (t\<lparr>collisions := collisions t + of_nat n\<rparr>, nt')) \<and>
      length nt' = cap \<and> probe_inv hf cap nt' \<and> uniq_keys eq nt' \<and>
      mset (occupied_slots nt') = mset (occupied_slots nt) + mset (occupied_slots cells)"
  using t nt room sep srt
proof (induction cells arbitrary: t nt)
  case Nil
  then show ?case
    by (intro exI [of _ 0] exI [of _ nt]) (simp add: occupied_slots_def)
next
  case (Cons pair rest)
  show ?case
  proof (cases "key pair = NULL")
    case True
    have "\<exists>n nt'. rehash_loop t rest nt = Some (Inr (t\<lparr>collisions := collisions t + of_nat n\<rparr>, nt')) \<and>
      length nt' = cap \<and> probe_inv hf cap nt' \<and> uniq_keys eq nt' \<and>
      mset (occupied_slots nt') = mset (occupied_slots nt) + mset (occupied_slots rest)"
      using Cons.prems True by (intro Cons.IH) (simp_all add: occupied_slots_def)
    then show ?thesis using True by (simp add: occupied_slots_def)
  next
    case False
    let ?h = "hf (key pair)"
    have sym: "\<And>a b. eq a b \<Longrightarrow> eq b a" using cb unfolding callbacks_ok_def by blast
    have "length (occupied_slots nt) < cap" using Cons.prems(7) by simp
    from first_free [OF cap(1) Cons.prems(4) cap(2) this, of ?h]
    obtain d where d: "d < cap" "key (nt ! probe_index cap ?h d) = NULL"
      "\<forall>j<d. key (nt ! probe_index cap ?h j) \<noteq> NULL"
      by blast
    let ?i = "probe_index cap ?h d"
    let ?nt = "nt[?i := pair]"
    let ?t = "t\<lparr>collisions := collisions t + of_nat d\<rparr>"
    have i: "?i < length nt" using cap(1) Cons.prems(4) by (simp add: probe_index_less)
    have step: "rehash_loop t (pair # rest) nt = rehash_loop ?t rest ?nt"
      using rehash_step [of t nt pair d rest] cap(1) Cons.prems(1,2,4) False d by simp
    have len': "length ?nt = cap" using Cons.prems(4) by simp
    have pinv': "probe_inv hf cap ?nt"
      using Cons.prems(5) Cons.prems(4) d(1) _ d(3) False by (rule probe_inv_insert) simp
    have uq': "uniq_keys eq ?nt"
    proof (rule uniq_keys_insert [OF Cons.prems(6)], intro allI impI)
      fix j assume j: "j < length nt" "key (nt ! j) \<noteq> NULL"
      then have "\<not> eq (key pair) (key (nt ! j))"
        using Cons.prems(8) False by (meson list.set_intros(1) nth_mem)
      then show "\<not> eq (key pair) (key (nt ! j)) \<and> \<not> eq (key (nt ! j)) (key pair)"
        using sym by blast
    qed
    have cnt: "length (occupied_slots ?nt) = Suc (length (occupied_slots nt))"
      using i d(2) False by (rule length_occupied_insert)
    have room': "length (occupied_slots ?nt) + length (occupied_slots rest) < cap"
      using Cons.prems(7) False cnt by (simp add: occupied_slots_def)
    have sep': "\<forall>p\<in>set rest. \<forall>q\<in>set ?nt. key p \<noteq> NULL \<and> key q \<noteq> NULL \<longrightarrow> \<not> eq (key p) (key q)"
    proof (intro ballI impI)
      fix p q assume p: "p \<in> set rest" and q: "q \<in> set ?nt"
        and occ: "key p \<noteq> NULL \<and> key q \<noteq> NULL"
      from q have "q = pair \<or> q \<in> set nt"
        using set_update_subset_insert [of nt ?i pair] by auto
      then show "\<not> eq (key p) (key q)"
      proof
        assume "q = pair"
        moreover have "\<not> eq (key pair) (key p)"
          using Cons.prems(9) p occ False by auto
        ultimately show ?thesis using sym by blast
      next
        assume "q \<in> set nt"
        then show ?thesis using Cons.prems(8) p occ by auto
      qed
    qed
    have srt': "sorted_wrt (\<lambda>p q. key p \<noteq> NULL \<and> key q \<noteq> NULL \<longrightarrow> \<not> eq (key p) (key q)) rest"
      using Cons.prems(9) by simp
    have "\<exists>n nt'. rehash_loop ?t rest ?nt = Some (Inr (?t\<lparr>collisions := collisions ?t + of_nat n\<rparr>, nt')) \<and>
      length nt' = cap \<and> probe_inv hf cap nt' \<and> uniq_keys eq nt' \<and>
      mset (occupied_slots nt') = mset (occupied_slots ?nt) + mset (occupied_slots rest)"
      using Cons.prems(1-3) len' pinv' uq' room' sep' srt' by (intro Cons.IH) simp_all
    then obtain n nt' where r: "rehash_loop ?t rest ?nt = Some (Inr (?t\<lparr>collisions := collisions ?t + of_nat n\<rparr>, nt'))"
      "length nt' = cap" "probe_inv hf cap nt'" "uniq_keys eq nt'"
      "mset (occupied_slots nt') = mset (occupied_slots ?nt) + mset (occupied_slots rest)"
      by blast
    have ms: "mset (occupied_slots ?nt) = add_mset pair (mset (occupied_slots nt))"
      using i d(2) False by (rule occupied_slots_insert)
    have "rehash_loop t (pair # rest) nt = Some (Inr (t\<lparr>collisions := collisions t + of_nat (d + n)\<rparr>, nt'))"
      using step r(1) by (simp add: add.assoc)
    moreover have "mset (occupied_slots nt') = mset (occupied_slots nt) + mset (occupied_slots (pair # rest))"
      using r(5) ms False by (simp add: occupied_slots_def)
    ultimately show ?thesis using r(2-4) by blast
  qed
qed

lemma calloc_simps [simp]:
  "length (calloc n) = n" "occupied_slots (calloc n) = []"
  "q \<in> set (calloc n) \<Longrightarrow> key q = NULL" "i < n \<Longrightarrow> key (calloc n ! i) = NULL"
  by (auto simp: calloc_def occupied_slots_def)

lemma probe_inv_calloc: "probe_inv hf n (calloc n)"
  by (simp add: probe_inv_def)

lemma uniq_keys_calloc: "uniq_keys eq (calloc n)"
  by (simp add: uniq_keys_def)

lemma uniq_keys_sorted_wrt:
  assumes "uniq_keys eq tab"
  shows "sorted_wrt (\<lambda>p q. key p \<noteq> NULL \<and> key q \<noteq> NULL \<longrightarrow> \<not> eq (key p) (key q)) tab"
  unfolding sorted_wrt_iff_nth_less
proof (intro allI impI)
  fix i j assume "i < j" "j < length tab" "key (tab ! i) \<noteq> NULL \<and> key (tab ! j) \<noteq> NULL"
  then show "\<not> eq (key (tab ! i)) (key (tab ! j))"
    using assms unfolding uniq_keys_def by (metis less_trans nat_neq_iff)
qed

lemma ht_put_rehash_wf:
  assumes wf: "ht_wf t" and fit: "capacity t * 2 dvd 2 ^ 64"
  shows "\<exists>n nt. ht_put_rehash t =
      Some (Inr (t\<lparr>capacity := capacity t * 2, collisions := collisions t + of_nat n,
                   rehashes := rehashes t + 1, table := nt\<rparr>)) \<and>
    ht_wf (t\<lparr>capacity := capacity t * 2, collisions := collisions t + of_nat n,
                   rehashes := rehashes t + 1, table := nt\<rparr>) \<and>
    mset (occupied_slots nt) = mset (occupied_slots (table t))"
proof -
  let ?cap = "capacity t * 2"
  let ?t1 = "t\<lparr>capacity := ?cap\<rparr>"
  have len: "length (table t) = capacity t" and c4: "4 \<le> capacity t"
    and occ: "length (occupied_slots (table t)) \<le> occupancy t" "occupancy t < capacity t"
    and uq: "uniq_keys (equals_fcn t) (table t)"
    and cb: "callbacks_ok (hash_fcn t) (equals_fcn t)"
    using wf by (simp_all add: ht_wf_def)
  have "\<exists>n nt'. rehash_loop ?t1 (table t) (calloc ?cap) =
        Some (Inr (?t1\<lparr>collisions := collisions ?t1 + of_nat n\<rparr>, nt')) \<and>
      length nt' = ?cap \<and> probe_inv (hash_fcn t) ?cap nt' \<and> uniq_keys (equals_fcn t) nt' \<and>
      mset (occupied_slots nt') = mset (occupied_slots (calloc ?cap)) + mset (occupied_slots (table t))"
  proof (rule rehash_loop_wf [where cap = ?cap and hf = "hash_fcn t" and eq = "equals_fcn t"])
    show "capacity ?t1 = ?cap" "hash_fcn ?t1 = hash_fcn t" "equals_fcn ?t1 = equals_fcn t"
      by simp_all
    show "0 < ?cap" using c4 by simp
    show "?cap dvd 2 ^ 64" by (rule fit)
    show "callbacks_ok (hash_fcn t) (equals_fcn t)" by (rule cb)
    show "length (calloc ?cap) = ?cap" by simp
    show "probe_inv (hash_fcn t) ?cap (calloc ?cap)" by (rule probe_inv_calloc)
    show "uniq_keys (equals_fcn t) (calloc ?cap)" by (rule uniq_keys_calloc)
    show "length (occupied_slots (calloc ?cap)) + length (occupied_slots (table t)) < ?cap"
      using occ by simp
    show "\<forall>p\<in>set (table t). \<forall>q\<in>set (calloc ?cap).
        key p \<noteq> NULL \<and> key q \<noteq> NULL \<longrightarrow> \<not> equals_fcn t (key p) (key q)"
      by simp
    show "sorted_wrt (\<lambda>p q. key p \<noteq> NULL \<and> key q \<noteq> NULL \<longrightarrow> \<not> equals_fcn t (key p) (key q)) (table t)"
      using uq by (rule uniq_keys_sorted_wrt)
  qed
  then obtain n nt where r: "rehash_loop ?t1 (table t) (calloc ?cap) =
        Some (Inr (?t1\<lparr>collisions := collisions ?t1 + of_nat n\<rparr>, nt))"
      "length nt = ?cap" "probe_inv (hash_fcn t) ?cap nt" "uniq_keys (equals_fcn t) nt"
      "mset (occupied_slots nt) = mset (occupied_slots (table t))"
    by auto
  let ?t' = "t\<lparr>capacity := ?cap, collisions := collisions t + of_nat n,
                   rehashes := rehashes t + 1, table := nt\<rparr>"
  have "length (occupied_slots nt) = length (occupied_slots (table t))"
    using r(5) by (metis size_mset)
  then have "ht_wf ?t'"
    using r(2-4) occ c4 cb fit by (simp add: ht_wf_def)
  moreover have "ht_put_rehash t = Some (Inr ?t')"
    using r(1) len by (simp add: ht_put_rehash_def Let_def RESIZE_FACTOR_def)
  ultimately show ?thesis using r(5) by blast
qed

lemma load_check:
  assumes "0 < cap"
  shows "LOAD_THRESHOLD \<le> real occ / real cap \<longleftrightarrow> 3 * cap \<le> 4 * occ"
proof -
  have "LOAD_THRESHOLD \<le> real occ / real cap \<longleftrightarrow> 0.75 * real cap \<le> real occ"
    using assms by (simp add: LOAD_THRESHOLD_def pos_le_divide_eq)
  also have "\<dots> \<longleftrightarrow> real (3 * cap) \<le> real (4 * occ)" by (simp add: mult.commute)
  also have "\<dots> \<longleftrightarrow> 3 * cap \<le> 4 * occ" by (rule of_nat_le_iff)
  finally show ?thesis .
qed

lemma present_mset:
  "present t k \<longleftrightarrow> (\<exists>p\<in>#mset (occupied_slots (table t)). equals_fcn t k (key p))"
  by (auto simp: present_def occupied_slots_def)

text \<open>
  A call of \<open>ht_put\<close> is the placement on the table \<open>t1\<close> that the growth
  check leaves: the rehashed table when the load has reached the threshold, the
  table itself otherwise.
\<close>

lemma ht_put_split:
  assumes wf: "ht_wf t" and fit: "capacity t * 2 dvd 2 ^ 64"
  shows "\<exists>t1. ht_put t k v = ht_put_place t1 k v \<and> ht_wf t1 \<and>
    occupancy t1 + 1 < capacity t1 \<and> occupancy t1 = occupancy t \<and>
    hash_fcn t1 = hash_fcn t \<and> equals_fcn t1 = equals_fcn t \<and> delete_fcn t1 = delete_fcn t \<and>
    mset (occupied_slots (table t1)) = mset (occupied_slots (table t)) \<and>
    (if LOAD_THRESHOLD \<le> real (occupancy t) / real (capacity t)
     then ht_put_rehash t = Some (Inr t1) \<and> capacity t1 = capacity t * RESIZE_FACTOR \<and>
          rehashes t1 = rehashes t + 1
     else t1 = t)"
proof (cases "LOAD_THRESHOLD \<le> real (occupancy t) / real (capacity t)")
  case True
  have c: "4 \<le> capacity t" "occupancy t < capacity t" using wf by (simp_all add: ht_wf_def)
  from ht_put_rehash_wf [OF wf fit] obtain n nt where
    r: "ht_put_rehash t = Some (Inr (t\<lparr>capacity := capacity t * 2,
          collisions := collisions t + of_nat n, rehashes := rehashes t + 1, table := nt\<rparr>))"
      "ht_wf (t\<lparr>capacity := capacity t * 2, collisions := collisions t + of_nat n,
          rehashes := rehashes t + 1, table := nt\<rparr>)"
      "mset (occupied_slots nt) = mset (occupied_slots (table t))"
    by blast
  let ?t1 = "t\<lparr>capacity := capacity t * 2, collisions := collisions t + of_nat n,
          rehashes := rehashes t + 1, table := nt\<rparr>"
  have "ht_put t k v = ht_put_place ?t1 k v"
    using True c r(1) by (simp add: ht_put_def)
  then show ?thesis
    using True r c by (intro exI [of _ ?t1]) (simp add: RESIZE_FACTOR_def)
next
  case False
  have c: "4 \<le> capacity t" using wf by (simp add: ht_wf_def)
  then have "\<not> 3 * capacity t \<le> 4 * occupancy t"
    using False load_check [of "capacity t" "occupancy t"] by simp
  then have "occupancy t + 1 < capacity t" using c by simp
  moreover have "ht_put t k v = ht_put_place t k v"
    using False c by (simp add: ht_put_def)
  ultimately show ?thesis
    using False wf by (intro exI [of _ t]) simp
qed

subsection \<open>Total correctness of the operations\<close>

lemma ht_wf_create:
  assumes "4 \<le> n" "n dvd 2 ^ 64" "callbacks_ok hf eq"
  shows "ht_wf (ht_create n hf eq del)"
  using assms by (simp add: ht_wf_def ht_create_def probe_inv_calloc uniq_keys_calloc)

lemma ht_has_wf:
  assumes "ht_wf t"
  shows "\<exists>d<capacity t. ht_has t k =
    Some (Inr (present t k, t\<lparr>collisions := collisions t + of_nat d\<rparr>))"
proof (cases "present t k")
  case True
  have len: "length (table t) = capacity t" using assms by (simp add: ht_wf_def)
  from True obtain i where "i < capacity t" "key (table t ! i) \<noteq> NULL"
    "equals_fcn t k (key (table t ! i))"
    unfolding present_iff_nth [OF len] by blast
  from ht_has_present [OF assms this] True show ?thesis by simp
next
  case False
  from ht_has_absent [OF assms False] False show ?thesis by simp
qed

lemma ht_get_iff:
  assumes wf: "ht_wf t"
  shows "(\<exists>ta. ht_get t k = Some (Inr (v, ta))) \<longleftrightarrow>
    (\<exists>p\<in>#mset (occupied_slots (table t)). equals_fcn t k (key p) \<and> val p = v)"
proof -
  have len: "length (table t) = capacity t" using wf by (simp add: ht_wf_def)
  have slots: "(\<exists>p\<in>#mset (occupied_slots (table t)). equals_fcn t k (key p) \<and> val p = v)
    \<longleftrightarrow> (\<exists>i<capacity t. key (table t ! i) \<noteq> NULL \<and> equals_fcn t k (key (table t ! i)) \<and>
          val (table t ! i) = v)"
  proof -
    have "(\<exists>p\<in>set (table t). key p \<noteq> NULL \<and> equals_fcn t k (key p) \<and> val p = v)
      \<longleftrightarrow> (\<exists>i<length (table t). key (table t ! i) \<noteq> NULL \<and>
            equals_fcn t k (key (table t ! i)) \<and> val (table t ! i) = v)"
      by (metis in_set_conv_nth)
    moreover have "(\<exists>p\<in>#mset (occupied_slots (table t)). R p)
      \<longleftrightarrow> (\<exists>p\<in>set (table t). key p \<noteq> NULL \<and> R p)" for R
      by (auto simp: occupied_slots_def)
    ultimately show ?thesis
      unfolding len by simp
  qed
  show ?thesis
  proof (cases "present t k")
    case True
    then obtain i where i: "i < capacity t" "key (table t ! i) \<noteq> NULL"
      "equals_fcn t k (key (table t ! i))"
      unfolding present_iff_nth [OF len] by blast
    from ht_get_present [OF wf i] obtain d where
      g: "ht_get t k = Some (Inr (val (table t ! i), t\<lparr>collisions := collisions t + of_nat d\<rparr>))"
      by blast
    have same: "val (table t ! j) = val (table t ! i)"
      if "j < capacity t" "key (table t ! j) \<noteq> NULL" "equals_fcn t k (key (table t ! j))" for j
    proof -
      from ht_get_present [OF wf that] obtain e where
        "ht_get t k = Some (Inr (val (table t ! j), t\<lparr>collisions := collisions t + of_nat e\<rparr>))"
        by blast
      with g show ?thesis by (metis Pair_inject sum.inject(2) option.inject)
    qed
    show ?thesis
    proof
      assume "\<exists>ta. ht_get t k = Some (Inr (v, ta))"
      with g have "v = val (table t ! i)" by (metis Pair_inject sum.inject(2) option.inject)
      with i show "\<exists>p\<in>#mset (occupied_slots (table t)). equals_fcn t k (key p) \<and> val p = v"
        unfolding slots by blast
    next
      assume "\<exists>p\<in>#mset (occupied_slots (table t)). equals_fcn t k (key p) \<and> val p = v"
      then obtain j where "j < capacity t" "key (table t ! j) \<noteq> NULL"
        "equals_fcn t k (key (table t ! j))" "val (table t ! j) = v"
        unfolding slots by blast
      with same [of j] have "v = val (table t ! i)" by simp
      with g show "\<exists>ta. ht_get t k = Some (Inr (v, ta))" by simp
    qed
  next
    case False
    from ht_has_absent [OF wf False] obtain e where
      "ht_has t k = Some (Inr (False, t\<lparr>collisions := collisions t + of_nat e\<rparr>))"
      by blast
    then have "ht_get t k = Some (Inl AssertFailed)"
      by (simp add: ht_get_def)
    moreover have "\<not> (\<exists>i<capacity t. key (table t ! i) \<noteq> NULL \<and>
        equals_fcn t k (key (table t ! i)) \<and> val (table t ! i) = v)"
      using False unfolding present_iff_nth [OF len] by blast
    ultimately show ?thesis unfolding slots by simp
  qed
qed

lemma place_total:
  assumes wf: "ht_wf t"
  shows "\<exists>r t'. ht_put_place t k v = Some (Inr (r, t')) \<and>
    capacity t' = capacity t \<and> rehashes t' = rehashes t \<and> hash_fcn t' = hash_fcn t \<and>
    equals_fcn t' = equals_fcn t \<and> delete_fcn t' = delete_fcn t \<and>
    (if present t k
     then occupancy t' = occupancy t \<and> ht_wf t' \<and>
       (\<exists>i<capacity t. key (table t ! i) \<noteq> NULL \<and> equals_fcn t k (key (table t ! i)) \<and>
          r = val (table t ! i) \<and> table t' = (table t)[i := (table t ! i)\<lparr>val := v\<rparr>])
     else occupancy t' = occupancy t + 1 \<and> r = NULL \<and>
       (occupancy t + 1 < capacity t \<longrightarrow> ht_wf t') \<and>
       (\<exists>i<capacity t. key (table t ! i) = NULL \<and>
          table t' = (table t)[i := \<lparr>key = k, val = v\<rparr>]))"
proof (cases "present t k")
  case True
  have len: "length (table t) = capacity t" using wf by (simp add: ht_wf_def)
  from True obtain i where i: "i < capacity t" "key (table t ! i) \<noteq> NULL"
    "equals_fcn t k (key (table t ! i))"
    unfolding present_iff_nth [OF len] by blast
  from place_present [OF wf i] obtain d where
    p: "ht_put_place t k v = Some (Inr (val (table t ! i),
      t\<lparr>collisions := collisions t + of_nat d,
        table := (table t)[i := (table t ! i)\<lparr>val := v\<rparr>]\<rparr>))"
    by blast
  let ?t' = "t\<lparr>collisions := collisions t + of_nat d,
        table := (table t)[i := (table t ! i)\<lparr>val := v\<rparr>]\<rparr>"
  have "ht_wf (t\<lparr>table := (table t)[i := (table t ! i)\<lparr>val := v\<rparr>]\<rparr>)"
    using wf i(1,2) by (rule wf_update)
  then have "ht_wf ?t'" by (simp add: ht_wf_def)
  with p i True show ?thesis
    by (intro exI [of _ "val (table t ! i)"] exI [of _ ?t']) auto
next
  case False
  have pos: "0 < capacity t" using wf by (simp add: ht_wf_def)
  from place_absent [OF wf False] obtain d where d: "d < capacity t"
    "key (table t ! probe_index (capacity t) (hash_fcn t k) d) = NULL"
    "\<forall>j<d. key (table t ! probe_index (capacity t) (hash_fcn t k) j) \<noteq> NULL"
    "ht_put_place t k v =
      Some (Inr (NULL,
        t\<lparr>collisions := collisions t + of_nat d,
          table := (table t)[probe_index (capacity t) (hash_fcn t k) d := \<lparr>key = k, val = v\<rparr>],
          occupancy := occupancy t + 1\<rparr>))"
    by blast
  let ?i = "probe_index (capacity t) (hash_fcn t k) d"
  let ?t' = "t\<lparr>collisions := collisions t + of_nat d,
          table := (table t)[?i := \<lparr>key = k, val = v\<rparr>], occupancy := occupancy t + 1\<rparr>"
  have "ht_wf ?t'" if "occupancy t + 1 < capacity t"
  proof -
    have "ht_wf (t\<lparr>table := (table t)[?i := \<lparr>key = k, val = v\<rparr>], occupancy := occupancy t + 1\<rparr>)"
      using wf False d(1-3) that by (rule wf_insert)
    then show ?thesis by (simp add: ht_wf_def)
  qed
  moreover have "?i < capacity t" using pos by (simp add: probe_index_less)
  ultimately show ?thesis
    using d False by (intro exI [of _ NULL] exI [of _ ?t']) auto
qed

lemma ht_get_state:
  assumes "ht_has t k = Some (Inr (found, ta))" "ht_get t k = Some (Inr (r, tb))"
  shows "tb = ta \<and> found"
  using assms by (simp add: ht_get_def Let_def split: if_splits option.splits sum.splits)

lemma ht_get_functional:
  assumes "ht_get t k = Some (Inr (v, ta))" "ht_get t k = Some (Inr (w, tb))"
  shows "v = w"
  using assms by simp

lemma ht_put_total:
  assumes wf: "ht_wf t" and fit: "capacity t * 2 dvd 2 ^ 64"
  shows "\<exists>r t'. ht_put t k v = Some (Inr (r, t')) \<and> ht_wf t' \<and>
    hash_fcn t' = hash_fcn t \<and> equals_fcn t' = equals_fcn t \<and> delete_fcn t' = delete_fcn t \<and>
    (capacity t' = capacity t \<or> capacity t' = capacity t * 2) \<and>
    (k \<noteq> NULL \<longrightarrow>
       (\<exists>p\<in>#mset (occupied_slots (table t')). equals_fcn t k (key p) \<and> val p = v)) \<and>
    (if present t k
     then occupancy t' = occupancy t \<and>
       (\<exists>p\<in>#mset (occupied_slots (table t)). equals_fcn t k (key p) \<and> val p = r)
     else occupancy t' = occupancy t + 1 \<and> r = NULL)"
proof -
  from ht_put_split [OF wf fit, of k v] obtain t1 where
    t1: "ht_put t k v = ht_put_place t1 k v" "ht_wf t1" "occupancy t1 + 1 < capacity t1"
      "occupancy t1 = occupancy t" "hash_fcn t1 = hash_fcn t" "equals_fcn t1 = equals_fcn t"
      "delete_fcn t1 = delete_fcn t"
      "mset (occupied_slots (table t1)) = mset (occupied_slots (table t))"
      "capacity t1 = capacity t * RESIZE_FACTOR \<or> t1 = t"
    by (auto split: if_splits)
  have pres: "present t1 k = present t k"
    using t1(6,8) by (simp add: present_mset)
  have len1: "length (table t1) = capacity t1" using t1(2) by (simp add: ht_wf_def)
  have refl: "equals_fcn t k k"
    using wf unfolding ht_wf_def callbacks_ok_def by blast
  from place_total [OF t1(2), of k v] obtain r t' where
    p: "ht_put_place t1 k v = Some (Inr (r, t'))" "capacity t' = capacity t1"
      "hash_fcn t' = hash_fcn t1" "equals_fcn t' = equals_fcn t1" "delete_fcn t' = delete_fcn t1"
    and cases: "if present t1 k
     then occupancy t' = occupancy t1 \<and> ht_wf t' \<and>
       (\<exists>i<capacity t1. key (table t1 ! i) \<noteq> NULL \<and> equals_fcn t1 k (key (table t1 ! i)) \<and>
          r = val (table t1 ! i) \<and> table t' = (table t1)[i := (table t1 ! i)\<lparr>val := v\<rparr>])
     else occupancy t' = occupancy t1 + 1 \<and> r = NULL \<and>
       (occupancy t1 + 1 < capacity t1 \<longrightarrow> ht_wf t') \<and>
       (\<exists>i<capacity t1. key (table t1 ! i) = NULL \<and>
          table t' = (table t1)[i := \<lparr>key = k, val = v\<rparr>])"
    by blast
  have capc: "capacity t' = capacity t \<or> capacity t' = capacity t * 2"
    using t1(9) p(2) by (auto simp: RESIZE_FACTOR_def)
  show ?thesis
  proof (cases "present t k")
    case True
    with cases pres obtain i where i: "occupancy t' = occupancy t1" "ht_wf t'"
      "i < capacity t1" "key (table t1 ! i) \<noteq> NULL" "equals_fcn t1 k (key (table t1 ! i))"
      "r = val (table t1 ! i)" "table t' = (table t1)[i := (table t1 ! i)\<lparr>val := v\<rparr>]"
      by auto
    let ?p = "(table t1 ! i)\<lparr>val := v\<rparr>"
    have "?p \<in> set (table t')"
      unfolding i(7) using i(3) len1 by (simp add: set_update_memI)
    then have stored: "\<exists>p\<in>#mset (occupied_slots (table t')). equals_fcn t k (key p) \<and> val p = v"
      using i(4,5) t1(6) by (intro bexI [of _ ?p]) (simp_all add: occupied_slots_def)
    have "table t1 ! i \<in># mset (occupied_slots (table t1))"
      using i(3,4) len1 by (simp add: occupied_slots_def)
    then have old: "\<exists>p\<in>#mset (occupied_slots (table t)). equals_fcn t k (key p) \<and> val p = r"
      using i(5,6) t1(6,8) by auto
    show ?thesis
      using True t1(1) p t1(4-7) i(1,2) capc stored old
      by (intro exI [of _ r] exI [of _ t']) simp
  next
    case False
    with cases pres t1(3) obtain i where i: "occupancy t' = occupancy t1 + 1" "r = NULL"
      "ht_wf t'" "i < capacity t1" "table t' = (table t1)[i := \<lparr>key = k, val = v\<rparr>]"
      by auto
    let ?p = "\<lparr>key = k, val = v\<rparr>"
    have "?p \<in> set (table t')"
      unfolding i(5) using i(4) len1 by (simp add: set_update_memI)
    then have stored: "\<exists>p\<in>#mset (occupied_slots (table t')). equals_fcn t k (key p) \<and> val p = v"
      if "k \<noteq> NULL"
      using that refl by (intro bexI [of _ ?p]) (simp_all add: occupied_slots_def)
    show ?thesis
      using False t1(1) p t1(4-7) i(1-3) capc stored
      by (intro exI [of _ r] exI [of _ t']) simp
  qed
qed

subsection \<open>The example tables are well-formed\<close>

lemma all_less_4: "(\<forall>i<4. P i) \<longleftrightarrow> P 0 \<and> P 1 \<and> P 2 \<and> P (3::nat)"
proof -
  have "i < 4 \<longleftrightarrow> i = 0 \<or> i = 1 \<or> i = 2 \<or> i = 3" for i :: nat by auto
  then show ?thesis by auto
qed

lemma ex_less_4: "(\<exists>i<4. P i) \<longleftrightarrow> P 0 \<or> P 1 \<or> P 2 \<or> P (3::nat)"
proof -
  have "i < 4 \<longleftrightarrow> i = 0 \<or> i = 1 \<or> i = 2 \<or> i = 3" for i :: nat by auto
  then show ?thesis by auto
qed

lemma callbacks_ok_ex: "callbacks_ok ex_hash (=)"
  by (simp add: callbacks_ok_def)

lemma ht_wf_ex_empty: "ht_wf ex_empty"
  unfolding ex_empty_def by (rule ht_wf_create) (simp_all add: callbacks_ok_ex)

lemma probe_index_ex: "probe_index 4 (ex_hash k) j = (k + j) mod 4"
proof -
  have "probe_index 4 (ex_hash k) j = (unat (ex_hash k) + j) mod 4"
    by (rule probe_index_dvd) simp
  also have "\<dots> = (k mod 2 ^ 64 + j) mod 4"
    by (simp add: ex_hash_def unat_of_nat)
  also have "\<dots> = (k mod 2 ^ 64 mod 4 + j) mod 4"
    by (simp add: mod_add_left_eq)
  also have "k mod 2 ^ 64 mod 4 = k mod 4"
    by (rule mod_mod_cancel) simp
  finally show ?thesis by (simp add: mod_add_left_eq)
qed

lemma ht_wf_ex_two: "ht_wf ex_two"
  unfolding ht_wf_def probe_inv_def uniq_keys_def
  by (simp add: ex_two_def callbacks_ok_ex occupied_slots_def all_less_4 ex_less_4 All_less_Suc
      probe_index_ex)

lemma ht_wf_ex_three: "ht_wf ex_three"
  unfolding ht_wf_def probe_inv_def uniq_keys_def
  by (simp add: ex_three_def callbacks_ok_ex occupied_slots_def all_less_4 ex_less_4 All_less_Suc
      probe_index_ex)

subsection \<open>The probe-sequence invariant in the natural numbers\<close>

lemma hole_free_iff:
  assumes "capacity t dvd 2 ^ 64"
  shows "hole_free t \<longleftrightarrow> probe_inv (hash_fcn t) (capacity t) (table t)"
  unfolding hole_free_def probe_inv_def probe_index_dvd [OF assms] ..

subsection \<open>Enumeration of a well-formed table\<close>









subsection \<open>What a call that returns leaves of the counters\<close>

text \<open>
  These are statements about calls that return, proved by induction on the
  computation of the loops; they ask nothing of the probe sequence.
\<close>

lemma ht_has_loop_frame:
  assumes "ht_has_loop t k orig h i = Some y"
  shows "\<forall>b t'. y = Inr (b, t') \<longrightarrow>
    capacity t' = capacity t \<and> occupancy t' = occupancy t \<and> table t' = table t"
  using assms
proof (induction rule: ht_has_loop.raw_induct [rotated 1, consumes 1])
  case (1 ht_has_loop t k orig h i y)
  note body = 1(2)
  show ?case
  proof (intro allI impI)
    fix b t' assume y: "y = Inr (b, t')"
    have in_range: "\<not> length (table t) \<le> i"
      using body y by (auto split: if_splits)
    show "capacity t' = capacity t \<and> occupancy t' = occupancy t \<and> table t' = table t"
    proof (cases "key (table t ! i) = NULL \<or> equals_fcn t k (key (table t ! i))")
      case True
      then have "t' = t" using body in_range y by (auto simp: Let_def split: if_splits)
      then show ?thesis by simp
    next
      case nm: False
      show ?thesis
      proof (cases "unat (h + 1) mod capacity t = orig")
        case True
        then have "t' = t\<lparr>collisions := collisions t + 1\<rparr>"
          using body in_range nm y by (simp add: Let_def)
        then show ?thesis by simp
      next
        case False
        then have "ht_has_loop (t\<lparr>collisions := collisions t + 1\<rparr>) k orig (h + 1)
            (unat (h + 1) mod capacity t) = Some y"
          using body in_range nm by (simp add: Let_def)
        from 1(1) [OF this] y
        have "capacity t' = capacity (t\<lparr>collisions := collisions t + 1\<rparr>) \<and>
          occupancy t' = occupancy (t\<lparr>collisions := collisions t + 1\<rparr>) \<and>
          table t' = table (t\<lparr>collisions := collisions t + 1\<rparr>)"
          by blast
        then show ?thesis by simp
      qed
    qed
  qed
qed

lemma ht_has_frame:
  assumes "ht_has t k = Some (Inr (b, t'))"
  shows "capacity t' = capacity t \<and> occupancy t' = occupancy t \<and> table t' = table t"
  using assms ht_has_loop_frame [of t k _ _ _ "Inr (b, t')"]
  by (simp add: ht_has_def Let_def split: if_splits)

lemma ht_get_frame:
  assumes "ht_get t k = Some (Inr (r, t'))"
  shows "capacity t' = capacity t \<and> occupancy t' = occupancy t \<and> table t' = table t"
proof (cases "ht_has t k")
  case None
  then show ?thesis using assms by (simp add: ht_get_def)
next
  case (Some x)
  show ?thesis
  proof (cases x)
    case (Inl e)
    then show ?thesis using assms Some by (simp add: ht_get_def)
  next
    case (Inr p)
    obtain b ta where p: "p = (b, ta)" by (cases p)
    have has: "ht_has t k = Some (Inr (b, ta))" using Some Inr p by simp
    from ht_get_state [OF has assms] have "t' = ta" by simp
    with ht_has_frame [OF has] show ?thesis by simp
  qed
qed

lemma put_probe_counts:
  assumes "put_probe t k v h i = Some y"
  shows "\<forall>r t'. y = Inr (r, t') \<longrightarrow> k \<noteq> NULL \<longrightarrow> key (table t ! i) \<noteq> NULL \<longrightarrow>
    capacity t' = capacity t \<and> length (table t') = length (table t) \<and>
    occupancy t' \<le> occupancy t + 1 \<and>
    int (length (occupied_slots (table t'))) - int (occupancy t') =
      int (length (occupied_slots (table t))) - int (occupancy t)"
  using assms
proof (induction rule: put_probe.raw_induct [rotated 1, consumes 1])
  case (1 put_probe t k v h i y)
  let ?i' = "unat (h + 1) mod capacity t"
  show ?case
  proof (intro allI impI)
    fix r t' assume y: "y = Inr (r, t')" and k: "k \<noteq> NULL" and occ: "key (table t ! i) \<noteq> NULL"
    have i: "i < length (table t)"
      using 1(2) y by (auto split: if_splits)
    show "capacity t' = capacity t \<and> length (table t') = length (table t) \<and>
      occupancy t' \<le> occupancy t + 1 \<and>
      int (length (occupied_slots (table t'))) - int (occupancy t') =
        int (length (occupied_slots (table t))) - int (occupancy t)"
    proof (cases "equals_fcn t k (key (table t ! i))")
      case True
      then have t': "t' = t\<lparr>table := (table t)[i := (table t ! i)\<lparr>val := v\<rparr>]\<rparr>"
        using 1(2) y i by (simp add: Let_def)
      have "length (occupied_slots ((table t)[i := (table t ! i)\<lparr>val := v\<rparr>]))
          = length (occupied_slots (table t))"
        using i occ by (intro length_occupied_update) simp_all
      then show ?thesis unfolding t' by simp
    next
      case False
      have i': "?i' < length (table t)"
        using 1(2) y i False by (auto simp: Let_def split: if_splits)
      show ?thesis
      proof (cases "key (table t ! ?i') = NULL")
        case True
        then have t': "t' = t\<lparr>collisions := collisions t + 1,
            table := (table t)[?i' := \<lparr>key = k, val = v\<rparr>], occupancy := occupancy t + 1\<rparr>"
          using 1(2) y i i' False by (simp add: Let_def)
        have "length (occupied_slots ((table t)[?i' := \<lparr>key = k, val = v\<rparr>]))
            = Suc (length (occupied_slots (table t)))"
          using i' True k by (intro length_occupied_insert) simp_all
        then show ?thesis unfolding t' by simp
      next
        case occ': False
        then have "put_probe (t\<lparr>collisions := collisions t + 1\<rparr>) k v (h + 1) ?i' = Some y"
          using 1(2) i i' False by (simp add: Let_def)
        from 1(1) [OF this] y k occ'
        have "capacity t' = capacity (t\<lparr>collisions := collisions t + 1\<rparr>) \<and>
          length (table t') = length (table (t\<lparr>collisions := collisions t + 1\<rparr>)) \<and>
          occupancy t' \<le> occupancy (t\<lparr>collisions := collisions t + 1\<rparr>) + 1 \<and>
          int (length (occupied_slots (table t'))) - int (occupancy t') =
            int (length (occupied_slots (table (t\<lparr>collisions := collisions t + 1\<rparr>)))) -
            int (occupancy (t\<lparr>collisions := collisions t + 1\<rparr>))"
          by simp
        then show ?thesis by simp
      qed
    qed
  qed
qed

lemma rehash_probe_free:
  assumes "rehash_probe t nt h = Some y"
  shows "\<forall>i t'. y = Inr (i, t') \<longrightarrow> i < length nt \<and> key (nt ! i) = NULL \<and>
    capacity t' = capacity t \<and> occupancy t' = occupancy t \<and> rehashes t' = rehashes t"
  using assms
proof (induction rule: rehash_probe.raw_induct [rotated 1, consumes 1])
  case (1 rehash_probe t nt h y)
  let ?i = "unat (h + 1) mod capacity t"
  show ?case
  proof (intro allI impI)
    fix i t' assume y: "y = Inr (i, t')"
    have in_range: "\<not> length nt \<le> ?i"
      using 1(2) y by (auto simp: Let_def split: if_splits)
    show "i < length nt \<and> key (nt ! i) = NULL \<and>
      capacity t' = capacity t \<and> occupancy t' = occupancy t \<and> rehashes t' = rehashes t"
    proof (cases "key (nt ! ?i) = NULL")
      case True
      then have "i = ?i" "t' = t\<lparr>collisions := collisions t + 1\<rparr>"
        using 1(2) y in_range by (simp_all add: Let_def)
      with True in_range show ?thesis by simp
    next
      case False
      then have "rehash_probe (t\<lparr>collisions := collisions t + 1\<rparr>) nt (h + 1) = Some y"
        using 1(2) in_range by (simp add: Let_def)
      from 1(1) [OF this] y
      have "i < length nt \<and> key (nt ! i) = NULL \<and>
        capacity t' = capacity (t\<lparr>collisions := collisions t + 1\<rparr>) \<and>
        occupancy t' = occupancy (t\<lparr>collisions := collisions t + 1\<rparr>) \<and>
        rehashes t' = rehashes (t\<lparr>collisions := collisions t + 1\<rparr>)"
        by blast
      then show ?thesis by simp
    qed
  qed
qed

lemma rehash_loop_counts:
  assumes "rehash_loop t cells nt = Some (Inr (t', nt'))"
  shows "length nt' = length nt \<and>
    length (occupied_slots nt') = length (occupied_slots nt) + length (occupied_slots cells) \<and>
    capacity t' = capacity t \<and> occupancy t' = occupancy t \<and> rehashes t' = rehashes t"
  using assms
proof (induction cells arbitrary: t nt)
  case Nil
  then show ?case by (simp add: occupied_slots_def)
next
  case (Cons pair rest)
  show ?case
  proof (cases "key pair = NULL")
    case True
    then have "rehash_loop t rest nt = Some (Inr (t', nt'))" using Cons.prems by simp
    from Cons.IH [OF this] True show ?thesis by (simp add: occupied_slots_def)
  next
    case False
    let ?i = "unat (hash_fcn t (key pair)) mod capacity t"
    have i: "?i < length nt"
      using Cons.prems False by (auto simp: Let_def split: if_splits)
    have "\<exists>j t1. j < length nt \<and> key (nt ! j) = NULL \<and> capacity t1 = capacity t \<and>
        occupancy t1 = occupancy t \<and> rehashes t1 = rehashes t \<and>
        rehash_loop t1 rest (nt[j := pair]) = Some (Inr (t', nt'))"
    proof (cases "key (nt ! ?i) = NULL")
      case True
      then have "rehash_loop t rest (nt[?i := pair]) = Some (Inr (t', nt'))"
        using Cons.prems False i by (simp add: Let_def)
      with i True show ?thesis by blast
    next
      case occ: False
      then obtain j t1 where p: "rehash_probe t nt (hash_fcn t (key pair)) = Some (Inr (j, t1))"
        "rehash_loop t1 rest (nt[j := pair]) = Some (Inr (t', nt'))"
        using Cons.prems False i
        by (auto simp: Let_def split: option.splits sum.splits)
      from rehash_probe_free [OF p(1)] p(2) show ?thesis by blast
    qed
    then obtain j t1 where j: "j < length nt" "key (nt ! j) = NULL" "capacity t1 = capacity t"
      "occupancy t1 = occupancy t" "rehashes t1 = rehashes t"
      "rehash_loop t1 rest (nt[j := pair]) = Some (Inr (t', nt'))"
      by blast
    have "length (occupied_slots (nt[j := pair])) = Suc (length (occupied_slots nt))"
      using j(1,2) False by (rule length_occupied_insert)
    with Cons.IH [OF j(6)] j(3-5) False show ?thesis
      by (simp add: occupied_slots_def)
  qed
qed

lemma ht_put_rehash_counts:
  assumes "ht_put_rehash t = Some (Inr t1)" "length (table t) = capacity t"
  shows "capacity t1 = capacity t * 2 \<and> length (table t1) = capacity t * 2 \<and>
    occupancy t1 = occupancy t \<and>
    length (occupied_slots (table t1)) = length (occupied_slots (table t)) \<and>
    rehashes t1 = rehashes t + 1"
proof -
  from assms obtain t2 nt where r: "rehash_loop (t\<lparr>capacity := capacity t * 2\<rparr>) (table t)
      (calloc (capacity t * 2)) = Some (Inr (t2, nt))"
    "t1 = t2\<lparr>table := nt, rehashes := rehashes t2 + 1\<rparr>"
    by (auto simp: ht_put_rehash_def Let_def RESIZE_FACTOR_def split: option.splits sum.splits)
  from rehash_loop_counts [OF r(1)] show ?thesis unfolding r(2) by simp
qed

lemma ht_put_place_counts:
  assumes "ht_put_place t k v = Some (Inr (r, t'))" "k \<noteq> NULL"
  shows "capacity t' = capacity t \<and> length (table t') = length (table t) \<and>
    occupancy t' \<le> occupancy t + 1 \<and>
    int (length (occupied_slots (table t'))) - int (occupancy t') =
      int (length (occupied_slots (table t))) - int (occupancy t)"
proof -
  let ?i = "unat (hash_fcn t k) mod capacity t"
  have i: "?i < length (table t)"
    using assms(1) by (auto simp: ht_put_place_def Let_def split: if_splits)
  show ?thesis
  proof (cases "key (table t ! ?i) = NULL")
    case True
    then have t': "t' = t\<lparr>table := (table t)[?i := \<lparr>key = k, val = v\<rparr>],
        occupancy := occupancy t + 1\<rparr>"
      using assms(1) i by (simp add: ht_put_place_def Let_def)
    have "length (occupied_slots ((table t)[?i := \<lparr>key = k, val = v\<rparr>]))
        = Suc (length (occupied_slots (table t)))"
      using i True assms(2) by (intro length_occupied_insert) simp_all
    then show ?thesis unfolding t' by simp
  next
    case False
    then have "put_probe t k v (hash_fcn t k) ?i = Some (Inr (r, t'))"
      using assms(1) i by (simp add: ht_put_place_def Let_def)
    from put_probe_counts [OF this] assms(2) False show ?thesis by simp
  qed
qed

lemma ht_put_counts:
  assumes ok: "counts_ok t" and k: "k \<noteq> NULL" and put: "ht_put t k v = Some (Inr (r, t'))"
  shows "counts_ok t'"
proof -
  have c: "4 \<le> capacity t" "length (table t) = capacity t"
    "occupancy t = length (occupied_slots (table t))" "occupancy t < capacity t"
    using ok by (simp_all add: counts_ok_def)
  show ?thesis
  proof (cases "LOAD_THRESHOLD \<le> real (occupancy t) / real (capacity t)")
    case True
    then obtain t1 where t1: "ht_put_rehash t = Some (Inr t1)"
      "ht_put_place t1 k v = Some (Inr (r, t'))"
      using put c(1) by (auto simp: ht_put_def split: option.splits sum.splits)
    from ht_put_rehash_counts [OF t1(1) c(2)] ht_put_place_counts [OF t1(2) k] c
    show ?thesis by (simp add: counts_ok_def)
  next
    case False
    then have "\<not> 3 * capacity t \<le> 4 * occupancy t"
      using load_check [of "capacity t" "occupancy t"] c(1) by simp
    moreover have "ht_put_place t k v = Some (Inr (r, t'))"
      using put False c(1) by (simp add: ht_put_def)
    from ht_put_place_counts [OF this k] have "capacity t' = capacity t"
      "length (table t') = length (table t)" "occupancy t' \<le> occupancy t + 1"
      "int (length (occupied_slots (table t'))) - int (occupancy t') =
        int (length (occupied_slots (table t))) - int (occupancy t)"
      by simp_all
    ultimately show ?thesis using c by (simp add: counts_ok_def)
  qed
qed

lemma step_counts:
  assumes "counts_ok t" "key_given c" "step t c = Some (Inr t')"
  shows "counts_ok t'"
proof (cases c)
  case (Put k v)
  then obtain r where "ht_put t k v = Some (Inr (r, t'))"
    using assms(3) by (auto split: option.splits sum.splits)
  with assms(1,2) Put show ?thesis by (auto intro: ht_put_counts)
next
  case (Has k)
  then obtain r where "ht_has t k = Some (Inr (r, t'))"
    using assms(3) by (auto split: option.splits sum.splits)
  from ht_has_frame [OF this] assms(1) show ?thesis by (simp add: counts_ok_def)
next
  case (Get k)
  then obtain r where "ht_get t k = Some (Inr (r, t'))"
    using assms(3) by (auto split: option.splits sum.splits)
  from ht_get_frame [OF this] assms(1) show ?thesis by (simp add: counts_ok_def)
qed

lemma run_counts:
  assumes "counts_ok t" "\<forall>c\<in>set cs. key_given c" "run t cs = Some (Inr t')"
  shows "counts_ok t'"
  using assms
proof (induction cs arbitrary: t)
  case Nil
  then show ?case by simp
next
  case (Cons c cs)
  then obtain t1 where t1: "step t c = Some (Inr t1)" "run t1 cs = Some (Inr t')"
    by (auto split: option.splits sum.splits)
  have "counts_ok t1" using Cons.prems(1,2) t1(1) by (auto intro: step_counts)
  with Cons.IH [OF _ _ t1(2)] Cons.prems(2) show ?case by simp
qed

lemma counts_ok_create: "4 \<le> n \<Longrightarrow> counts_ok (ht_create n hf eq del)"
  by (simp add: counts_ok_def ht_create_def)

subsection \<open>A put of the key NULL\<close>

lemma ex_empty_put_nullkey: "ht_put ex_empty NULL 7 = Some (Inr (NULL, ex_nullkey1))"
  by (simp add: ht_put_def ex_empty_def ht_create_def LOAD_THRESHOLD_def ht_put_place_def
      calloc_4 ex_nullkey1_def ex_hash_def)

lemma ex_nullkey1_put: "ht_put ex_nullkey1 NULL 8 = Some (Inr (NULL, ex_nullkey2))"
  by (simp add: ht_put_def LOAD_THRESHOLD_def ht_put_place_def
      ex_nullkey1_def ex_nullkey2_def ex_hash_def)

lemma ex_nullkey_has:
  "ht_has ex_empty NULL = Some (Inr (False, ex_empty))"
  "ht_has ex_nullkey1 NULL = Some (Inr (False, ex_nullkey1))"
proof -
  have "has_spec ex_empty NULL = (False, ex_empty)"
    by (simp add: has_spec_def probe_slots_def ex_empty_def ht_create_def calloc_4 ex_hash_def upt_4)
  then show "ht_has ex_empty NULL = Some (Inr (False, ex_empty))"
    using ht_has_refines_spec [of ex_empty NULL] by (simp add: ex_empty_def ht_create_def)
  have "has_spec ex_nullkey1 NULL = (False, ex_nullkey1)"
    by (simp add: has_spec_def probe_slots_def ex_nullkey1_def ex_hash_def upt_4)
  then show "ht_has ex_nullkey1 NULL = Some (Inr (False, ex_nullkey1))"
    using ht_has_refines_spec [of ex_nullkey1 NULL] by (simp add: ex_nullkey1_def)
qed

lemma ex_two_key5:
  assumes "i < 4" "key (table ex_two ! i) = 5"
  shows "val (table ex_two ! i) = 50"
proof -
  have "\<forall>i<4. key (table ex_two ! i) = 5 \<longrightarrow> val (table ex_two ! i) = 50"
    unfolding all_less_4 by (simp add: ex_two_def)
  with assms show ?thesis by blast
qed

section \<open>The claims of the specification\<close>

text \<open>
  Claim C1 says that \<open>ht_values\<close> returns exactly \<open>occupancy\<close> elements and
  includes the value of every occupied slot, also a stored \<open>NULL\<close>. The scan
  tests the value field instead: after \<^verbatim>\<open>ht_put(t, 1, NULL)\<close> on the empty table
  of capacity 4 the occupancy is 1 and \<open>ht_keys\<close> returns the key, but
  \<open>ht_values\<close> writes nothing into its buffer of one cell.
\<close>

theorem ht_values_skips_null_value:
  "ht_put ex_empty 1 NULL = Some (Inr (NULL, ex_null)) \<and> occupancy ex_null = 1 \<and>
   ht_keys ex_null = Inr [Some 1] \<and> ht_values ex_null = Inr [None]"
  using ex_empty_put_null by (simp add: ht_values_def ht_keys_def ex_null_def)

text \<open>
  Claim C7: on a table whose array has \<open>capacity\<close> slots, for a capacity that
  divides \<open>2 ^ 64\<close>, \<open>ht_has\<close> returns what the scan of the specification
  gives on the slots \<open>h mod capacity\<close>, \<open>(h + 1) mod capacity\<close>, ... of one
  cycle: \<open>False\<close> on the first empty slot, \<open>True\<close> on the first matching key,
  one collision counted for each occupied slot that does not match, and at
  most \<open>capacity\<close> slots probed. The collisions counted, at most \<open>capacity\<close>,
  are added to the 32-bit counter; while it stays below \<open>2 ^ 31\<close> the counter
  reads as the sum, and beyond it wraps, as the witness shows at \<open>2 ^ 31 - 1\<close>.
\<close>

theorem ht_has_probe_scan:
  assumes "0 < capacity t" "length (table t) = capacity t" "capacity t dvd 2 ^ 64"
  shows "ht_has t k = Some (Inr (has_spec t k)) \<and>
    length (probe_slots t k) = capacity t \<and>
    snd (has_scan (equals_fcn t) k (probe_slots t k)) \<le> capacity t \<and>
    collisions (snd (has_spec t k)) =
      collisions t + of_nat (snd (has_scan (equals_fcn t) k (probe_slots t k))) \<and>
    (sint (collisions t) + int (capacity t) < 2 ^ 31 \<longrightarrow>
       sint (collisions (snd (has_spec t k))) =
         sint (collisions t) + int (snd (has_scan (equals_fcn t) k (probe_slots t k))))"
proof -
  let ?n = "snd (has_scan (equals_fcn t) k (probe_slots t k))"
  have n: "length (probe_slots t k) = capacity t" "?n \<le> capacity t"
    using probe_slots_count [of t k] by simp_all
  have c: "collisions (snd (has_spec t k)) = collisions t + of_nat ?n"
    by (rule has_spec_collisions)
  have "sint (collisions (snd (has_spec t k))) = sint (collisions t) + int ?n"
    if "sint (collisions t) + int (capacity t) < 2 ^ 31"
  proof -
    have "sint (collisions t) + int ?n < 2 ^ 31" using that n(2) by simp
    then show ?thesis unfolding c by (rule sint_add_of_nat)
  qed
  with ht_has_refines_spec [OF assms, of k] n c show ?thesis by blast
qed

theorem ht_has_probe_scan_witness:
  "0 < capacity ex_two \<and> length (table ex_two) = capacity ex_two \<and>
   capacity ex_two dvd 2 ^ 64 \<and>
   sint (collisions ex_two) + int (capacity ex_two) < 2 ^ 31 \<and>
   ht_has ex_two 5 = Some (Inr (True, ex_two\<lparr>collisions := 2\<rparr>)) \<and>
   ht_has ex_two 9 = Some (Inr (False, ex_two\<lparr>collisions := 3\<rparr>)) \<and>
   sint (collisions (snd (has_spec ex_two 9))) = 3 \<and>
   ht_has (ex_two\<lparr>collisions := 2147483647\<rparr>) 9
     = Some (Inr (False, ex_two\<lparr>collisions := - 2147483647\<rparr>))"
proof -
  have h: "0 < capacity ex_two" "length (table ex_two) = capacity ex_two"
    "capacity ex_two dvd 2 ^ 64"
    by (simp_all add: ex_two_def)
  have h': "0 < capacity (ex_two\<lparr>collisions := 2147483647\<rparr>)"
    "length (table (ex_two\<lparr>collisions := 2147483647\<rparr>))
      = capacity (ex_two\<lparr>collisions := 2147483647\<rparr>)"
    "capacity (ex_two\<lparr>collisions := 2147483647\<rparr>) dvd 2 ^ 64"
    by (simp_all add: ex_two_def)
  have s: "sint (collisions ex_two) + int (capacity ex_two) < 2 ^ 31"
    by (simp add: ex_two_def)
  have e: "has_spec ex_two 5 = (True, ex_two\<lparr>collisions := 2\<rparr>)"
    "has_spec ex_two 9 = (False, ex_two\<lparr>collisions := 3\<rparr>)"
    "has_spec (ex_two\<lparr>collisions := 2147483647\<rparr>) 9
      = (False, ex_two\<lparr>collisions := - 2147483647\<rparr>)"
    by (simp_all add: has_spec_def probe_slots_def ex_two_def ex_hash_def upt_4)
  have n: "snd (has_scan (equals_fcn ex_two) 9 (probe_slots ex_two 9)) = 2"
    by (simp add: probe_slots_def ex_two_def ex_hash_def upt_4)
  have "sint (collisions (snd (has_spec ex_two 9))) = 3"
    using ht_has_probe_scan [OF h, of 9] s n by (simp add: ex_two_def)
  then show ?thesis
    using h s e ht_has_probe_scan [OF h, of 5] ht_has_probe_scan [OF h, of 9]
      ht_has_probe_scan [OF h', of 9]
    by simp
qed

text \<open>
  Claim C2 says that \<open>ht_get\<close> leaves the collision counter and all other
  table state as they were. Its assertion calls \<open>ht_has\<close>, which counts: on the
  table holding the keys 1 and 5 in the slots 1 and 2, \<open>ht_get\<close> of the key 5
  returns 50 and raises the counter from 1 to 2.
\<close>

theorem ht_get_changes_collisions:
  "ht_has ex_two 5 = Some (Inr (True, ex_two\<lparr>collisions := 2\<rparr>)) \<and>
   ht_get ex_two 5 = Some (Inr (50, ex_two\<lparr>collisions := 2\<rparr>)) \<and>
   collisions ex_two = 1 \<and> ex_two\<lparr>collisions := 2\<rparr> \<noteq> ex_two"
proof -
  have "ht_get ex_two 5 = Some (Inr (val (table ex_two ! probe_index (capacity ex_two) (hash_fcn ex_two 5) 1),
      ex_two\<lparr>collisions := 2\<rparr>))"
    using ex_two_has
    by (intro ht_get_after_has) (simp_all add: ex_two_def ex_hash_def probe_index_def)
  moreover have "collisions (ex_two\<lparr>collisions := 2\<rparr>) \<noteq> collisions ex_two"
    by (simp add: ex_two_def)
  then have "ex_two\<lparr>collisions := 2\<rparr> \<noteq> ex_two" by metis
  ultimately show ?thesis
    using ex_two_has by (simp add: ex_two_def ex_hash_def probe_index_def)
qed

text \<open>
  Claim C2 as amended: when \<open>ht_has\<close> answers \<open>True\<close> and leaves the table \<open>t'\<close>,
  \<open>ht_get\<close> returns the value of the first slot on the probe sequence of the
  key whose key matches, together with the same \<open>t'\<close>: its own loop counts
  nothing, and \<open>t'\<close> is \<open>t\<close> with the number \<open>d\<close> of occupied slots that did not
  match added to the 32-bit collision counter. While the counter stays below
  \<open>2 ^ 31\<close> it reads \<open>d\<close> higher; beyond, it wraps.
\<close>

theorem ht_get_counts_as_has:
  assumes "0 < capacity t" "length (table t) = capacity t" "capacity t dvd 2 ^ 64"
    and "ht_has t k = Some (Inr (True, t'))"
  shows "\<exists>d<capacity t.
     (\<forall>j<d. key (table t ! ((unat (hash_fcn t k) + j) mod capacity t)) \<noteq> NULL \<and>
            \<not> equals_fcn t k (key (table t ! ((unat (hash_fcn t k) + j) mod capacity t)))) \<and>
     key (table t ! ((unat (hash_fcn t k) + d) mod capacity t)) \<noteq> NULL \<and>
     equals_fcn t k (key (table t ! ((unat (hash_fcn t k) + d) mod capacity t))) \<and>
     ht_get t k = Some (Inr (val (table t ! ((unat (hash_fcn t k) + d) mod capacity t)), t')) \<and>
     t' = t\<lparr>collisions := collisions t + of_nat d\<rparr> \<and>
     (sint (collisions t) + int (capacity t) < 2 ^ 31 \<longrightarrow>
        sint (collisions t') = sint (collisions t) + int d)"
proof -
  have pi: "\<And>j. probe_index (capacity t) (hash_fcn t k) j
              = (unat (hash_fcn t k) + j) mod capacity t"
    using assms(3) by (rule probe_index_dvd)
  from ht_has_True_run [OF assms] obtain d where d: "d < capacity t"
    "t' = t\<lparr>collisions := collisions t + of_nat d\<rparr>"
    "\<forall>j<d. key (table t ! probe_index (capacity t) (hash_fcn t k) j) \<noteq> NULL \<and>
            \<not> equals_fcn t k (key (table t ! probe_index (capacity t) (hash_fcn t k) j))"
    "key (table t ! probe_index (capacity t) (hash_fcn t k) d) \<noteq> NULL"
    "equals_fcn t k (key (table t ! probe_index (capacity t) (hash_fcn t k) d))"
    by blast
  have g: "ht_get t k = Some (Inr (val (table t ! probe_index (capacity t) (hash_fcn t k) d), t'))"
    unfolding d(2) using assms(1,2) assms(4) [unfolded d(2)] d(3,5)
    by (intro ht_get_after_has) auto
  have s: "sint (collisions t') = sint (collisions t) + int d"
    if "sint (collisions t) + int (capacity t) < 2 ^ 31"
  proof -
    have "sint (collisions t) + int d < 2 ^ 31" using that d(1) by simp
    then have "sint (collisions t + of_nat d) = sint (collisions t) + int d"
      by (rule sint_add_of_nat)
    then show ?thesis unfolding d(2) by simp
  qed
  show ?thesis
  proof (intro exI [of _ d] conjI impI)
    show "d < capacity t" by (rule d(1))
    show "\<forall>j<d. key (table t ! ((unat (hash_fcn t k) + j) mod capacity t)) \<noteq> NULL \<and>
            \<not> equals_fcn t k (key (table t ! ((unat (hash_fcn t k) + j) mod capacity t)))"
      using d(3) unfolding pi .
    show "key (table t ! ((unat (hash_fcn t k) + d) mod capacity t)) \<noteq> NULL"
      using d(4) unfolding pi .
    show "equals_fcn t k (key (table t ! ((unat (hash_fcn t k) + d) mod capacity t)))"
      using d(5) unfolding pi .
    show "ht_get t k = Some (Inr (val (table t ! ((unat (hash_fcn t k) + d) mod capacity t)), t'))"
      using g unfolding pi .
    show "t' = t\<lparr>collisions := collisions t + of_nat d\<rparr>" by (rule d(2))
    show "sint (collisions t') = sint (collisions t) + int d"
      if "sint (collisions t) + int (capacity t) < 2 ^ 31"
      using that by (rule s)
  qed
qed

theorem ht_get_counts_as_has_witness:
  "0 < capacity ex_two \<and> length (table ex_two) = capacity ex_two \<and>
   capacity ex_two dvd 2 ^ 64 \<and>
   ht_has ex_two 5 = Some (Inr (True, ex_two\<lparr>collisions := 2\<rparr>)) \<and>
   sint (collisions ex_two) + int (capacity ex_two) < 2 ^ 31 \<and>
   ht_get ex_two 5 = Some (Inr (50, ex_two\<lparr>collisions := 2\<rparr>)) \<and>
   sint (collisions (ex_two\<lparr>collisions := 2\<rparr>)) = 2"
proof -
  have h: "0 < capacity ex_two" "length (table ex_two) = capacity ex_two"
    "capacity ex_two dvd 2 ^ 64"
    by (simp_all add: ex_two_def)
  have s: "sint (collisions ex_two) + int (capacity ex_two) < 2 ^ 31"
    by (simp add: ex_two_def)
  from ht_get_counts_as_has [OF h ex_two_has] obtain d where d: "d < capacity ex_two"
    "equals_fcn ex_two 5 (key (table ex_two ! ((unat (hash_fcn ex_two 5) + d) mod capacity ex_two)))"
    "ht_get ex_two 5 = Some (Inr (val (table ex_two ! ((unat (hash_fcn ex_two 5) + d) mod capacity ex_two)),
        ex_two\<lparr>collisions := 2\<rparr>))"
    by blast
  let ?i = "(unat (hash_fcn ex_two 5) + d) mod capacity ex_two"
  have "?i < 4" by (simp add: ex_two_def)
  moreover have "key (table ex_two ! ?i) = 5" using d(2) by (simp add: ex_two_def)
  ultimately have "val (table ex_two ! ?i) = 50" by (rule ex_two_key5)
  with d(3) have "ht_get ex_two 5 = Some (Inr (50, ex_two\<lparr>collisions := 2\<rparr>))" by simp
  moreover have "sint (collisions (ex_two\<lparr>collisions := 2\<rparr>)) = 2" by simp
  ultimately show ?thesis using h s ex_two_has by blast
qed

text \<open>
  Claim C3: on a well-formed table whose load \<open>occupancy / capacity\<close> has
  reached \<open>LOAD_THRESHOLD\<close>, \<open>ht_put\<close> first rehashes: the rehash returns a
  table \<open>t1\<close> of \<open>RESIZE_FACTOR\<close> times the capacity, with \<open>rehashes\<close> one higher
  and the occupancy unchanged, the call then is the placement of its key on
  \<open>t1\<close>, and it returns a table with that capacity and that count of rehashes:
  one rehash for the call. (The doubled capacity divides \<open>2 ^ 64\<close>.)
\<close>

theorem ht_put_grows_once:
  assumes "ht_wf t" "capacity t * 2 dvd 2 ^ 64"
    and "LOAD_THRESHOLD \<le> real (occupancy t) / real (capacity t)"
  shows "\<exists>t1 r t'. ht_put_rehash t = Some (Inr t1) \<and>
    capacity t1 = capacity t * RESIZE_FACTOR \<and> rehashes t1 = rehashes t + 1 \<and>
    occupancy t1 = occupancy t \<and>
    ht_put t k v = ht_put_place t1 k v \<and> ht_put t k v = Some (Inr (r, t')) \<and>
    capacity t' = capacity t * RESIZE_FACTOR \<and> rehashes t' = rehashes t + 1"
proof -
  from ht_put_split [OF assms(1,2), of k v] assms(3) obtain t1 where
    t1: "ht_put t k v = ht_put_place t1 k v" "ht_wf t1" "occupancy t1 = occupancy t"
      "ht_put_rehash t = Some (Inr t1)" "capacity t1 = capacity t * RESIZE_FACTOR"
      "rehashes t1 = rehashes t + 1"
    by auto
  from place_total [OF t1(2), of k v] obtain r t' where
    "ht_put_place t1 k v = Some (Inr (r, t'))" "capacity t' = capacity t1"
    "rehashes t' = rehashes t1"
    by blast
  with t1 show ?thesis by auto
qed

theorem ht_put_grows_once_witness:
  "ht_wf ex_three \<and> capacity ex_three * 2 dvd 2 ^ 64 \<and>
   LOAD_THRESHOLD \<le> real (occupancy ex_three) / real (capacity ex_three) \<and>
   (\<exists>t1 r t'. ht_put_rehash ex_three = Some (Inr t1) \<and>
      capacity t1 = 8 \<and> rehashes t1 = 1 \<and> occupancy t1 = 3 \<and>
      ht_put ex_three 4 40 = ht_put_place t1 4 40 \<and>
      ht_put ex_three 4 40 = Some (Inr (r, t')) \<and> capacity t' = 8 \<and> rehashes t' = 1)"
proof -
  have h: "capacity ex_three * 2 dvd 2 ^ 64"
    "LOAD_THRESHOLD \<le> real (occupancy ex_three) / real (capacity ex_three)"
    by (simp_all add: ex_three_def LOAD_THRESHOLD_def)
  show ?thesis
    using h ht_wf_ex_three ht_put_grows_once [OF ht_wf_ex_three h, of 4 40]
    by (simp add: ex_three_def RESIZE_FACTOR_def)
qed

text \<open>
  Claim C4: the rehash of a well-formed table returns a table with the same
  occupancy and the same occupied pairs, in which \<open>ht_get\<close> returns for every
  key the value that it returned before.
\<close>

theorem rehash_keeps_content:
  assumes "ht_wf t" "capacity t * 2 dvd 2 ^ 64"
  shows "\<exists>t1. ht_put_rehash t = Some (Inr t1) \<and> occupancy t1 = occupancy t \<and>
    mset (occupied_slots (table t1)) = mset (occupied_slots (table t)) \<and>
    (\<forall>k v. (\<exists>ta. ht_get t k = Some (Inr (v, ta))) \<longrightarrow>
           (\<exists>tb. ht_get t1 k = Some (Inr (v, tb))))"
proof -
  from ht_put_rehash_wf [OF assms] obtain n nt where
    r: "ht_put_rehash t = Some (Inr (t\<lparr>capacity := capacity t * 2,
          collisions := collisions t + of_nat n, rehashes := rehashes t + 1, table := nt\<rparr>))"
      "ht_wf (t\<lparr>capacity := capacity t * 2, collisions := collisions t + of_nat n,
          rehashes := rehashes t + 1, table := nt\<rparr>)"
      "mset (occupied_slots nt) = mset (occupied_slots (table t))"
    by blast
  let ?t1 = "t\<lparr>capacity := capacity t * 2, collisions := collisions t + of_nat n,
          rehashes := rehashes t + 1, table := nt\<rparr>"
  have "(\<exists>tb. ht_get ?t1 k = Some (Inr (v, tb)))"
    if "\<exists>ta. ht_get t k = Some (Inr (v, ta))" for k v
    using that r(3) unfolding ht_get_iff [OF assms(1)] ht_get_iff [OF r(2)] by simp
  with r show ?thesis
    by (intro exI [of _ ?t1]) simp
qed

theorem rehash_keeps_content_witness:
  "ht_wf ex_two \<and> capacity ex_two * 2 dvd 2 ^ 64 \<and>
   ht_get ex_two 5 = Some (Inr (50, ex_two\<lparr>collisions := 2\<rparr>)) \<and>
   (\<exists>t1. ht_put_rehash ex_two = Some (Inr t1) \<and> occupancy t1 = 2 \<and>
      (\<exists>tb. ht_get t1 5 = Some (Inr (50, tb))))"
proof -
  have h: "capacity ex_two * 2 dvd 2 ^ 64" by (simp add: ex_two_def)
  have g: "ht_get ex_two 5 = Some (Inr (50, ex_two\<lparr>collisions := 2\<rparr>))"
    using ex_two_has
    ht_get_after_has [of ex_two 5 2 1]
    by (simp add: ex_two_def ex_hash_def probe_index_def)
  from rehash_keeps_content [OF ht_wf_ex_two h] obtain t1 where
    t1: "ht_put_rehash ex_two = Some (Inr t1)" "occupancy t1 = occupancy ex_two"
    "\<forall>k v. (\<exists>ta. ht_get ex_two k = Some (Inr (v, ta))) \<longrightarrow>
           (\<exists>tb. ht_get t1 k = Some (Inr (v, tb)))"
    by blast
  from t1(3) g have "\<exists>tb. ht_get t1 5 = Some (Inr (50, tb))" by blast
  moreover have "occupancy t1 = 2" using t1(2) by (simp add: ex_two_def)
  ultimately show ?thesis
    using g h ht_wf_ex_two t1(1) by blast
qed

text \<open>
  Claim C5: a well-formed table has the probe-sequence invariant, and so have
  the table that \<open>ht_put\<close> returns, for any key, and the table that the
  rehash returns; both are well-formed again, so the invariant holds after
  every further call.
\<close>

theorem ht_put_keeps_hole_free:
  assumes "ht_wf t" "capacity t * 2 dvd 2 ^ 64"
  shows "hole_free t \<and>
    (\<exists>r t'. ht_put t k v = Some (Inr (r, t')) \<and> hole_free t' \<and> ht_wf t') \<and>
    (\<exists>t1. ht_put_rehash t = Some (Inr t1) \<and> hole_free t1 \<and> ht_wf t1)"
proof -
  have wf_hf: "hole_free s" if "ht_wf s" for s
    using that hole_free_iff [of s] by (simp add: ht_wf_def)
  from ht_put_total [OF assms, of k v] obtain r t' where
    "ht_put t k v = Some (Inr (r, t'))" "ht_wf t'"
    by blast
  moreover from ht_put_rehash_wf [OF assms] obtain t1 where
    "ht_put_rehash t = Some (Inr t1)" "ht_wf t1"
    by blast
  ultimately show ?thesis
    using wf_hf assms(1) by blast
qed

theorem ht_put_keeps_hole_free_witness:
  "ht_wf ex_three \<and> capacity ex_three * 2 dvd 2 ^ 64 \<and>
   hole_free ex_three \<and>
   (\<exists>r t'. ht_put ex_three 4 40 = Some (Inr (r, t')) \<and> hole_free t' \<and> ht_wf t') \<and>
   (\<exists>t1. ht_put_rehash ex_three = Some (Inr t1) \<and> hole_free t1 \<and> ht_wf t1)"
proof -
  have h: "capacity ex_three * 2 dvd 2 ^ 64"
    by (simp add: ex_three_def)
  show ?thesis
    using h ht_wf_ex_three ht_put_keeps_hole_free [OF ht_wf_ex_three h, of 4 40] by simp
qed

text \<open>
  Claim C6 says that for every key a second \<open>ht_put\<close> returns the value of the
  first and leaves the occupancy unchanged. For the key \<open>NULL\<close> it does not: the
  slot written by the first call still counts as empty, so the second call
  returns \<open>NULL\<close>, not 7, and raises the occupancy from 1 to 2, and \<open>ht_get\<close>
  fails its assertion.
\<close>

theorem ht_put_twice_null_key:
  "ht_put ex_empty NULL 7 = Some (Inr (NULL, ex_nullkey1)) \<and>
   ht_put ex_nullkey1 NULL 8 = Some (Inr (NULL, ex_nullkey2)) \<and>
   occupancy ex_nullkey1 = 1 \<and> occupancy ex_nullkey2 = 2 \<and>
   ht_get ex_nullkey2 NULL = Some (Inl AssertFailed)"
proof -
  have "has_spec ex_nullkey2 NULL = (False, ex_nullkey2)"
    by (simp add: has_spec_def probe_slots_def ex_nullkey2_def ex_hash_def upt_4)
  then have "ht_has ex_nullkey2 NULL = Some (Inr (False, ex_nullkey2))"
    using ht_has_refines_spec [of ex_nullkey2 NULL] by (simp add: ex_nullkey2_def)
  then have "ht_get ex_nullkey2 NULL = Some (Inl AssertFailed)"
    by (simp add: ht_get_def)
  then show ?thesis
    using ex_empty_put_nullkey ex_nullkey1_put by (simp add: ex_nullkey1_def ex_nullkey2_def)
qed

text \<open>
  Claim C6 as amended, for a key other than \<open>NULL\<close>: on a well-formed table,
  \<open>ht_put\<close> of \<open>k\<close> with \<open>v1\<close> followed by \<open>ht_put\<close> of \<open>k\<close> with \<open>v2\<close>: the
  second call returns \<open>v1\<close> and leaves the occupancy as it was, and \<open>ht_get\<close> of
  \<open>k\<close> then returns \<open>v2\<close>. (Either call may rehash; four times the capacity
  divides \<open>2 ^ 64\<close>.)
\<close>

theorem ht_put_twice_updates:
  assumes "ht_wf t" "k \<noteq> NULL" "capacity t * 4 dvd 2 ^ 64"
  shows "\<exists>r1 t1 t2 t3. ht_put t k v1 = Some (Inr (r1, t1)) \<and>
    ht_put t1 k v2 = Some (Inr (v1, t2)) \<and> occupancy t2 = occupancy t1 \<and>
    ht_get t2 k = Some (Inr (v2, t3))"
proof -
  have fit: "capacity t * 2 dvd 2 ^ 64"
    using assms(3) by (rule dvd_trans [rotated]) simp
  from ht_put_total [OF assms(1) fit, of k v1] assms(2) obtain r1 t1 where
    1: "ht_put t k v1 = Some (Inr (r1, t1))" "ht_wf t1" "equals_fcn t1 = equals_fcn t"
      "capacity t1 = capacity t \<or> capacity t1 = capacity t * 2"
      "\<exists>p\<in>#mset (occupied_slots (table t1)). equals_fcn t k (key p) \<and> val p = v1"
    by blast
  have fit1: "capacity t1 * 2 dvd 2 ^ 64"
    using 1(4) fit assms(3) by (auto simp: mult.assoc)
  have pres1: "present t1 k"
    using 1(3,5) unfolding present_mset by auto
  from ht_put_total [OF 1(2) fit1, of k v2] pres1 assms(2) obtain r2 t2 where
    2: "ht_put t1 k v2 = Some (Inr (r2, t2))" "ht_wf t2" "equals_fcn t2 = equals_fcn t1"
      "\<exists>p\<in>#mset (occupied_slots (table t2)). equals_fcn t1 k (key p) \<and> val p = v2"
      "occupancy t2 = occupancy t1"
      "\<exists>p\<in>#mset (occupied_slots (table t1)). equals_fcn t1 k (key p) \<and> val p = r2"
    by auto
  have "\<exists>ta. ht_get t1 k = Some (Inr (v1, ta))"
    using 1(3,5) unfolding ht_get_iff [OF 1(2)] by simp
  moreover have "\<exists>ta. ht_get t1 k = Some (Inr (r2, ta))"
    using 2(6) unfolding ht_get_iff [OF 1(2)] by simp
  ultimately have "r2 = v1" by auto
  moreover have "\<exists>t3. ht_get t2 k = Some (Inr (v2, t3))"
    using 2(3,4) unfolding ht_get_iff [OF 2(2)] by simp
  ultimately show ?thesis using 1(1) 2(1,5) by blast
qed

theorem ht_put_twice_updates_witness:
  "ht_wf ex_three \<and> (4::nat) \<noteq> NULL \<and> capacity ex_three * 4 dvd 2 ^ 64 \<and>
   (\<exists>r1 t1 t2 t3. ht_put ex_three 4 40 = Some (Inr (r1, t1)) \<and>
      ht_put t1 4 41 = Some (Inr (40, t2)) \<and> occupancy t2 = occupancy t1 \<and>
      ht_get t2 4 = Some (Inr (41, t3)))"
proof -
  have h: "(4::nat) \<noteq> NULL" "capacity ex_three * 4 dvd 2 ^ 64"
    by (simp_all add: ex_three_def)
  show ?thesis
    using h ht_wf_ex_three ht_put_twice_updates [OF ht_wf_ex_three h, of 40 41] by simp
qed

text \<open>
  Claim C8 says that after every \<open>ht_put\<close> of a key that was not present
  \<open>ht_has\<close> finds the key. After \<open>ht_put\<close> of the key \<open>NULL\<close> on the empty
  table, which returns \<open>NULL\<close> and raises the occupancy, it does not.
\<close>

theorem ht_put_null_key_not_found:
  "ht_has ex_empty NULL = Some (Inr (False, ex_empty)) \<and>
   ht_put ex_empty NULL 7 = Some (Inr (NULL, ex_nullkey1)) \<and>
   occupancy ex_nullkey1 = occupancy ex_empty + 1 \<and>
   ht_has ex_nullkey1 NULL = Some (Inr (False, ex_nullkey1))"
  using ex_nullkey_has ex_empty_put_nullkey
  by (simp add: ex_nullkey1_def ex_empty_def ht_create_def)

text \<open>
  Claim C8 as amended: on a well-formed table \<open>ht_put\<close> returns, for every
  key and with no error: when \<open>ht_has\<close> found the key before the call, the
  value returned is the one \<open>ht_get\<close> returned and the occupancy is unchanged;
  when it did not, \<open>NULL\<close> is returned and the occupancy is one higher. When
  the key is not \<open>NULL\<close>, \<open>ht_has\<close> finds it after the call.
\<close>

theorem ht_put_never_fails:
  assumes "ht_wf t" "capacity t * 2 dvd 2 ^ 64"
  shows "\<exists>found ta r t'. ht_has t k = Some (Inr (found, ta)) \<and>
    ht_put t k v = Some (Inr (r, t')) \<and>
    (if found then ht_get t k = Some (Inr (r, ta)) \<and> occupancy t' = occupancy t
     else r = NULL \<and> occupancy t' = occupancy t + 1) \<and>
    (k \<noteq> NULL \<longrightarrow> (\<exists>tb. ht_has t' k = Some (Inr (True, tb))))"
proof -
  from ht_has_wf [OF assms(1), of k] obtain ta where
    has: "ht_has t k = Some (Inr (present t k, ta))"
    by blast
  from ht_put_total [OF assms, of k v] obtain r t' where
    p: "ht_put t k v = Some (Inr (r, t'))" "ht_wf t'" "equals_fcn t' = equals_fcn t"
      "k \<noteq> NULL \<longrightarrow>
         (\<exists>p\<in>#mset (occupied_slots (table t')). equals_fcn t k (key p) \<and> val p = v)"
      "if present t k
       then occupancy t' = occupancy t \<and>
         (\<exists>p\<in>#mset (occupied_slots (table t)). equals_fcn t k (key p) \<and> val p = r)
       else occupancy t' = occupancy t + 1 \<and> r = NULL"
    by blast
  have has': "\<exists>tb. ht_has t' k = Some (Inr (True, tb))" if "k \<noteq> NULL"
  proof -
    have "present t' k" using that p(3,4) unfolding present_mset by auto
    with ht_has_wf [OF p(2), of k] show ?thesis by auto
  qed
  have "ht_get t k = Some (Inr (r, ta))" if "present t k"
  proof -
    from that p(5) have "\<exists>tc. ht_get t k = Some (Inr (r, tc))"
      unfolding ht_get_iff [OF assms(1)] by simp
    then obtain tc where g: "ht_get t k = Some (Inr (r, tc))" by blast
    with ht_get_state [OF has g] show ?thesis by simp
  qed
  with has p(1,5) has' show ?thesis
    by (intro exI [of _ "present t k"] exI [of _ ta] exI [of _ r] exI [of _ t']) simp
qed

theorem ht_put_never_fails_witness:
  "ht_wf ex_two \<and> capacity ex_two * 2 dvd 2 ^ 64 \<and> (9::nat) \<noteq> NULL \<and>
   (\<exists>found ta r t'. ht_has ex_two 9 = Some (Inr (found, ta)) \<and>
      ht_put ex_two 9 90 = Some (Inr (r, t')) \<and>
      (if found then ht_get ex_two 9 = Some (Inr (r, ta)) \<and> occupancy t' = occupancy ex_two
       else r = NULL \<and> occupancy t' = occupancy ex_two + 1) \<and>
      (\<exists>tb. ht_has t' 9 = Some (Inr (True, tb))))"
proof -
  have h: "capacity ex_two * 2 dvd 2 ^ 64"
    by (simp add: ex_two_def)
  show ?thesis
    using h ht_wf_ex_two ht_put_never_fails [OF ht_wf_ex_two h, of 9 90] by simp
qed



text \<open>
  Claim C9: start from \<open>ht_create\<close> with an initial capacity of at least 4 and
  run any sequence of \<open>ht_put\<close> calls with keys other than \<open>NULL\<close>, and of
  \<open>ht_has\<close> and \<open>ht_get\<close> calls. The table that the sequence returns has a
  positive capacity, an occupancy below it, and an empty slot. Every prefix of
  a sequence is a sequence, so this holds after every call.
\<close>

theorem never_full:
  assumes "4 \<le> n" "\<forall>c\<in>set cs. key_given c"
    and "run (ht_create n hf eq del) cs = Some (Inr t)"
  shows "0 < capacity t \<and> occupancy t < capacity t \<and>
    (\<exists>i<capacity t. key (table t ! i) = NULL)"
proof -
  have ok: "counts_ok t"
    using counts_ok_create [OF assms(1)] assms(2,3) by (rule run_counts)
  then have "length (occupied_slots (table t)) < length (table t)"
    by (simp add: counts_ok_def)
  from ex_empty_slot [OF this] ok show ?thesis by (simp add: counts_ok_def)
qed

theorem never_full_witness:
  "(4::nat) \<le> 4 \<and> key_given (Put 1 NULL) \<and> key_given (Has 5) \<and>
   run (ht_create 4 ex_hash (=) True) [Put 1 NULL, Has 5]
     = Some (Inr (ex_null\<lparr>collisions := 1\<rparr>)) \<and>
   0 < capacity (ex_null\<lparr>collisions := 1\<rparr>) \<and>
   occupancy (ex_null\<lparr>collisions := 1\<rparr>) < capacity (ex_null\<lparr>collisions := 1\<rparr>) \<and>
   (\<exists>i. i < capacity (ex_null\<lparr>collisions := 1\<rparr>) \<and>
      key (table (ex_null\<lparr>collisions := 1\<rparr>) ! i) = NULL)"
proof -
  have h: "(4::nat) \<le> 4" "\<forall>c\<in>set [Put 1 NULL, Has 5]. key_given c" by simp_all
  have "ht_has ex_null 5 = Some (Inr (has_spec ex_null 5))"
    by (rule ht_has_refines_spec) (simp_all add: ex_null_def)
  moreover have "has_spec ex_null 5 = (False, ex_null\<lparr>collisions := 1\<rparr>)"
    by (simp add: has_spec_def probe_slots_def ex_null_def ex_hash_def upt_4)
  ultimately have r: "run (ht_create 4 ex_hash (=) True) [Put 1 NULL, Has 5]
      = Some (Inr (ex_null\<lparr>collisions := 1\<rparr>))"
    using ex_empty_put_null by (simp add: ex_empty_def)
  have k: "key_given (Put 1 NULL)" "key_given (Has 5)" by simp_all
  from never_full [OF h r] h(1) k r show ?thesis by blast
qed

end
